theory Spec2Isabelle
  imports Complex_Main "HOL-Library.Word" "HOL-Library.Char_ord" "HOL-Library.Monad_Syntax"
begin

section \<open>Character buffers\<close>

text \<open>
  A C string is modelled by the list of its bytes in front of the terminating NUL.
  A pointer into the string is the index it points at; reading at the index of the
  terminator (and, by convention, anywhere behind it) gives NUL.  The section on
  termination below shows that no loop of the scanner moves a cursor behind the
  terminator, so the convention is never relied upon.
\<close>

definition NUL :: char where
  "NUL = CHR 0x00"

definition peek :: "string \<Rightarrow> nat \<Rightarrow> char" where
  "peek buf p = (if p < length buf then buf ! p else NUL)"

section \<open>Character classes of \<open>parsing.h\<close>\<close>

text \<open>
  The macros take a pointer and test the character it points at; here they take the
  character.  Characters compare as unsigned bytes; for the ranges below a signed
  \<open>char\<close> gives the same verdicts.
\<close>

definition is_white_space :: "char \<Rightarrow> bool" where
  "is_white_space c \<longleftrightarrow> c = CHR '' '' \<or> (CHR 0x09 \<le> c \<and> c \<le> CHR 0x0D)"

definition is_valid_digit :: "char \<Rightarrow> bool" where
  "is_valid_digit c \<longleftrightarrow> CHR ''0'' \<le> c \<and> c \<le> CHR ''9''"

definition is_decimal :: "char \<Rightarrow> bool" where
  "is_decimal c \<longleftrightarrow> c = CHR ''.''"

definition is_l_or_L :: "char \<Rightarrow> bool" where
  "is_l_or_L c \<longleftrightarrow> c = CHR ''l'' \<or> c = CHR ''L''"

definition is_e_or_E :: "char \<Rightarrow> bool" where
  "is_e_or_E c \<longleftrightarrow> c = CHR ''e'' \<or> c = CHR ''E''"

definition is_n_or_N :: "char \<Rightarrow> bool" where
  "is_n_or_N c \<longleftrightarrow> c = CHR ''n'' \<or> c = CHR ''N''"

definition is_i_or_I :: "char \<Rightarrow> bool" where
  "is_i_or_I c \<longleftrightarrow> c = CHR ''i'' \<or> c = CHR ''I''"

definition is_negative_sign :: "char \<Rightarrow> bool" where
  "is_negative_sign c \<longleftrightarrow> c = CHR ''-''"

definition is_positive_sign :: "char \<Rightarrow> bool" where
  "is_positive_sign c \<longleftrightarrow> c = CHR ''+''"

definition is_sign :: "char \<Rightarrow> bool" where
  "is_sign c \<longleftrightarrow> is_negative_sign c \<or> is_positive_sign c"

definition ascii2uint :: "char \<Rightarrow> nat" where
  "ascii2uint c = of_char c - of_char CHR ''0''"

section \<open>Consuming macros\<close>

text \<open>\<open>consume_sign(str)\<close> is \<open>(is_sign(str) && ++(str))\<close>: the cursor after it.\<close>

definition consume_sign :: "string \<Rightarrow> nat \<Rightarrow> nat" where
  "consume_sign buf str = (if is_sign (peek buf str) then str + 1 else str)"

text \<open>
  The build targets Python 3 (the tox environments are py38 to py313), where
  \<open>consume_python2_long_literal_lL\<close> is the constant \<open>false\<close> and leaves the cursor alone.
  The result is the macro's value and the cursor after it.
\<close>

definition PY_MAJOR_VERSION :: nat where
  "PY_MAJOR_VERSION = 3"

definition consume_python2_long_literal_lL :: "string \<Rightarrow> nat \<Rightarrow> bool \<times> nat" where
  "consume_python2_long_literal_lL buf str =
     (if PY_MAJOR_VERSION = 2
      then (if is_l_or_L (peek buf str) then (True, str + 1) else (False, str))
      else (False, str))"

text \<open>\<open>while (is_white_space(str)) ++(str)\<close>\<close>

partial_function (option) consume_white_space :: "string \<Rightarrow> nat \<Rightarrow> nat option" where
  "consume_white_space buf str =
     (if is_white_space (peek buf str) then consume_white_space buf (str + 1) else Some str)"

declare consume_white_space.simps [code]

section \<open>The float scanner\<close>

text \<open>\<open>DBL_DIG\<close> of \<open>float.h\<close> for IEEE 754 doubles.\<close>

definition DBL_DIG :: "32 word" where
  "DBL_DIG = 15"

text \<open>
  Modelled from the spec: \<open>case_insensitive_match\<close> is declared in \<open>parsing.h\<close> but its body
  is missing.  Following the spec's "case-insensitively equals" and the way the scanner
  advances by the length of the pattern after a match, it tells whether the characters
  at the cursor are the (lower-case) pattern \<open>t\<close> up to ASCII letter case.
\<close>

definition ascii_tolower :: "char \<Rightarrow> char" where
  "ascii_tolower c = (if CHR ''A'' \<le> c \<and> c \<le> CHR ''Z'' then char_of (of_char c + (32::nat)) else c)"

definition case_insensitive_match :: "string \<Rightarrow> nat \<Rightarrow> string \<Rightarrow> bool" where
  "case_insensitive_match buf s t \<longleftrightarrow>
     map ascii_tolower (take (length t) (drop s buf)) = t"

text \<open>
  \<open>while (is_valid_digit(str)) { str++; ndigits++; valid = true; }\<close>, on the cursor, the
  \<open>unsigned\<close> digit counter and the validity flag.
\<close>

partial_function (option) consume_counted_digits ::
  "string \<Rightarrow> nat \<Rightarrow> 32 word \<Rightarrow> bool \<Rightarrow> (nat \<times> 32 word \<times> bool) option" where
  "consume_counted_digits buf str ndigits valid =
     (if is_valid_digit (peek buf str)
      then consume_counted_digits buf (str + 1) (ndigits + 1) True
      else Some (str, ndigits, valid))"

declare consume_counted_digits.simps [code]

text \<open>\<open>while (is_valid_digit(str)) { str++; valid = true; }\<close> of the exponent.\<close>

partial_function (option) consume_exponent_digits ::
  "string \<Rightarrow> nat \<Rightarrow> bool \<Rightarrow> (nat \<times> bool) option" where
  "consume_exponent_digits buf str valid =
     (if is_valid_digit (peek buf str)
      then consume_exponent_digits buf (str + 1) True
      else Some (str, valid))"

declare consume_exponent_digits.simps [code]

text \<open>The part of the scanner below the comment "Check if it is a float".\<close>

definition check_float :: "string \<Rightarrow> nat \<Rightarrow> nat \<Rightarrow> bool option" where
  "check_float buf str0 end = do {
     (str, ndigits, valid) \<leftarrow> consume_counted_digits buf str0 0 False;
     (is_long, str) \<leftarrow> Some (consume_python2_long_literal_lL buf str);
     (str, ndigits, valid) \<leftarrow>
       (if \<not> is_long then do {
          (str, ndigits, valid) \<leftarrow>
            (if is_decimal (peek buf str)
             then consume_counted_digits buf (str + 1) ndigits valid
             else Some (str, ndigits, valid));
          (if is_e_or_E (peek buf str) \<and> valid
           then do {
             (str, valid) \<leftarrow> consume_exponent_digits buf (consume_sign buf (str + 1)) False;
             Some (str, ndigits, valid)
           }
           else Some (str, ndigits, valid))
        }
        else Some (str, ndigits, valid));
     Some (valid \<and> ndigits < DBL_DIG \<and> str = end)
   }"

definition string_contains_non_overflowing_float :: "string \<Rightarrow> nat \<Rightarrow> nat \<Rightarrow> bool option" where
  "string_contains_non_overflowing_float buf str0 end =
     (let str = consume_sign buf str0 in
      if is_n_or_N (peek buf str) \<or> is_i_or_I (peek buf str) then
        if case_insensitive_match buf str ''inf'' then
          (let str = str + 3;
               str = (if case_insensitive_match buf str ''inity'' then str + 5 else str)
           in Some (str = end))
        else if case_insensitive_match buf str ''nan'' then
          (let str = str + 3 in Some (str = end))
        else check_float buf str end
      else check_float buf str end)"

section \<open>Stripping white space\<close>

text \<open>
  \<open>strip_whitespace(start, end, length)\<close> sets \<open>end\<close> to the last character, moves
  \<open>start\<close> forward over white space, moves \<open>end\<close> backward over white space and then one
  forward.  Moving backward, the macro dereferences \<open>end\<close> before it compares it with
  \<open>start\<close>; a read in front of the first byte of the buffer is outside the object and is
  the fault \<open>OutOfBounds\<close> here.
\<close>

datatype fault = OutOfBounds

text \<open>\<open>while (is_white_space(end) && (start) != (end)) --(end)\<close>\<close>

partial_function (option) retreat_white_space ::
  "string \<Rightarrow> nat \<Rightarrow> int \<Rightarrow> (fault + int) option" where
  "retreat_white_space buf start end =
     (if end < 0 then Some (Inl OutOfBounds)
      else if is_white_space (peek buf (nat end)) \<and> int start \<noteq> end
      then retreat_white_space buf start (end - 1)
      else Some (Inr end))"

declare retreat_white_space.simps [code]

definition strip_whitespace :: "string \<Rightarrow> nat \<Rightarrow> nat \<Rightarrow> (fault + nat \<times> nat) option" where
  "strip_whitespace buf start0 len = do {
     end \<leftarrow> Some (int start0 + int len - 1);
     start \<leftarrow> consume_white_space buf start0;
     r \<leftarrow> retreat_white_space buf start end;
     (case r of
        Inl f \<Rightarrow> Some (Inl f)
      | Inr end \<Rightarrow> Some (Inr (start, nat (end + 1))))
   }"

text \<open>
  Modelled from the spec: the caller that strips a string and hands the range to the
  scanner is missing.  Following the scanner's contract in the spec (trim first, then
  require the match to consume the whole trimmed range), the string is stripped with
  \<open>strip_whitespace\<close>, with the number of characters in front of the terminator as
  \<open>length\<close>, and the stripped range is handed to the scanner.
\<close>

definition classify :: "string \<Rightarrow> (fault + bool) option" where
  "classify buf = do {
     r \<leftarrow> strip_whitespace buf 0 (length buf);
     (case r of
        Inl f \<Rightarrow> Some (Inl f)
      | Inr (start, end) \<Rightarrow> map_option Inr (string_contains_non_overflowing_float buf start end))
   }"

section \<open>Descriptors and options\<close>

text \<open>
  Modelled from the spec: the headers declaring \<open>NumberType\<close>, \<open>NumberFlags\<close>,
  \<open>UserOptions\<close>, \<open>UserType\<close> and \<open>Selectors\<close> are missing.  The descriptor is a bitset over
  independent flags, so a value of \<open>NumberFlags\<close> is the set of the flags that are on,
  \<open>flags & msk\<close> is their intersection and its conversion to \<open>bool\<close> tells whether the
  intersection is non-empty.  \<open>UserOptions\<close> is a record of independent settings with one
  setter each; the infinity and NaN allowances are kept per origin and set from a
  selector.  The theorems below are stated for every selector and every value of the
  other settings.
\<close>

datatype NumberType =
  INVALID | Integer | Float | NaN | Infinity | IntLike | User | FromStr | FromUni | FromNum

type_synonym NumberFlags = "NumberType set"

definition has_flags :: "NumberFlags \<Rightarrow> NumberFlags \<Rightarrow> bool" where
  "has_flags flags msk \<longleftrightarrow> flags \<inter> msk \<noteq> {}"

datatype UserType = REAL | FLOAT | INT | INTLIKE | FORCEINT

datatype Selector = ALLOWED | DISALLOWED | INPUT | RAISE | STRING_ONLY | NUMBER_ONLY

record UserOptions =
  base :: int
  underscores_allowed :: bool
  allow_coerce :: bool
  unicode_allowed :: bool
  allow_inf_str :: bool
  allow_inf_num :: bool
  allow_nan_str :: bool
  allow_nan_num :: bool

definition UserOptions_default :: UserOptions where
  "UserOptions_default =
     \<lparr>base = 10, underscores_allowed = False, allow_coerce = False, unicode_allowed = True,
      allow_inf_str = False, allow_inf_num = False, allow_nan_str = False, allow_nan_num = False\<rparr>"

definition set_coerce :: "bool \<Rightarrow> UserOptions \<Rightarrow> UserOptions" where
  "set_coerce coerce options = options\<lparr>allow_coerce := coerce\<rparr>"

definition set_underscores_allowed :: "bool \<Rightarrow> UserOptions \<Rightarrow> UserOptions" where
  "set_underscores_allowed allowed options = options\<lparr>underscores_allowed := allowed\<rparr>"

definition set_inf_allowed :: "Selector option \<Rightarrow> UserOptions \<Rightarrow> UserOptions" where
  "set_inf_allowed selector options =
     options\<lparr>allow_inf_str := (selector = Some ALLOWED \<or> selector = Some STRING_ONLY),
             allow_inf_num := (selector = Some ALLOWED \<or> selector = Some NUMBER_ONLY)\<rparr>"

definition set_nan_allowed :: "Selector option \<Rightarrow> UserOptions \<Rightarrow> UserOptions" where
  "set_nan_allowed selector options =
     options\<lparr>allow_nan_str := (selector = Some ALLOWED \<or> selector = Some STRING_ONLY),
             allow_nan_num := (selector = Some ALLOWED \<or> selector = Some NUMBER_ONLY)\<rparr>"

section \<open>The binding layer\<close>

text \<open>
  The text extractor, the parsers and the evaluator are outside \<open>implementation.cpp\<close>; the
  implementation only asks the extractor what kind of input it holds and the evaluator
  for the descriptor.  They are parameters here: what the extractor answers for an
  object, the descriptor each of the three evaluators gives for an object under given
  options, and the Python type of an object.
\<close>

record TextExtractor =
  is_text :: bool
  is_unicode_character :: bool
  is_non_text :: bool

datatype PyTypeObject = PyLong_Type | PyFloat_Type | PyOther_Type string

record 'obj binding =
  extractor :: "'obj \<Rightarrow> TextExtractor"
  character_number_type :: "'obj \<Rightarrow> UserOptions \<Rightarrow> NumberFlags"
  unicode_number_type :: "'obj \<Rightarrow> UserOptions \<Rightarrow> NumberFlags"
  numeric_number_type :: "'obj \<Rightarrow> UserOptions \<Rightarrow> NumberFlags"
  Py_TYPE :: "'obj \<Rightarrow> PyTypeObject"

section \<open>The implementation of the checks\<close>

text \<open>\<open>consider\<close> is a pointer to a selector, or the null pointer.\<close>

definition collect_type ::
  "'obj binding \<Rightarrow> 'obj \<Rightarrow> UserOptions \<Rightarrow> Selector option \<Rightarrow> NumberFlags" where
  "collect_type b obj options consider =
     (let num_only = (consider = Some NUMBER_ONLY);
          str_only = (consider = Some STRING_ONLY);
          ex = extractor b obj
      in if num_only \<and> (is_text ex \<or> is_unicode_character ex) then {INVALID}
         else if str_only \<and> is_non_text ex then {INVALID}
         else if is_text ex then character_number_type b obj options
         else if is_unicode_character ex then unicode_number_type b obj options
         else numeric_number_type b obj options)"

text \<open>The four out-parameters are returned: \<open>(from_str, ok_float, ok_int, ok_intlike)\<close>.\<close>

definition resolve_types :: "NumberFlags \<Rightarrow> UserOptions \<Rightarrow> bool \<times> bool \<times> bool \<times> bool" where
  "resolve_types flags options =
     (let from_str = has_flags flags {FromStr, FromUni};
          from_num = has_flags flags {FromNum};
          no_inf_str = (from_str \<and> \<not> allow_inf_str options);
          no_nan_str = (from_str \<and> \<not> allow_nan_str options);
          no_inf_num = (from_num \<and> \<not> allow_inf_num options);
          no_nan_num = (from_num \<and> \<not> allow_nan_num options);
          no_inf = (no_inf_str \<or> no_inf_num);
          no_nan = (no_nan_str \<or> no_nan_num);
          bad_inf = (no_inf \<and> has_flags flags {Infinity});
          bad_nan = (no_nan \<and> has_flags flags {NaN});
          ok_float = (has_flags flags {Float} \<and> \<not> (bad_inf \<or> bad_nan));
          ok_int = has_flags flags {Integer};
          ok_intlike = (allow_coerce options \<and> has_flags flags {IntLike})
      in (from_str, ok_float, ok_int, ok_intlike))"

definition float_check_impl ::
  "'obj binding \<Rightarrow> 'obj \<Rightarrow> Selector option \<Rightarrow> Selector option \<Rightarrow> Selector option \<Rightarrow>
     UserType \<Rightarrow> bool \<Rightarrow> bool \<Rightarrow> bool" where
  "float_check_impl b input inf' nan' consider ntype allow_underscores strict =
     (let options = set_nan_allowed nan' (set_inf_allowed inf'
                      (set_underscores_allowed allow_underscores UserOptions_default));
          flags = collect_type b input options consider;
          (from_str, ok_float, ok_int, ok_intlike) = resolve_types flags options;
          ok_int = (if ntype = REAL then ok_int else (from_str \<and> \<not> strict \<and> ok_int))
      in if ok_float \<or> ok_int then True else False)"

text \<open>
  The result of the type query is a type object or Python's \<open>None\<close>.  \<open>allowed_types\<close> is
  the null pointer or a sequence of type objects, for which \<open>PySequence_Contains\<close> is
  membership.
\<close>

datatype query_result = Py_None | Py_Type PyTypeObject

definition PySequence_Contains :: "PyTypeObject list \<Rightarrow> PyTypeObject \<Rightarrow> bool" where
  "PySequence_Contains seq x \<longleftrightarrow> x \<in> set seq"

definition type_query_impl ::
  "'obj binding \<Rightarrow> 'obj \<Rightarrow> PyTypeObject list option \<Rightarrow> Selector option \<Rightarrow> Selector option \<Rightarrow>
     bool \<Rightarrow> bool \<Rightarrow> query_result" where
  "type_query_impl b input allowed_types inf' nan' allow_underscores coerce =
     (let options = set_nan_allowed nan' (set_inf_allowed inf'
                      (set_underscores_allowed allow_underscores
                        (set_coerce coerce UserOptions_default)));
          flags = collect_type b input options None;
          (from_str, ok_float, ok_int, ok_intlike) = resolve_types flags options;
          found_type = (if ok_int \<or> ok_intlike then PyLong_Type
                        else if ok_float then PyFloat_Type else Py_TYPE b input)
      in case allowed_types of
           Some seq \<Rightarrow> if \<not> PySequence_Contains seq found_type then Py_None else Py_Type found_type
         | None \<Rightarrow> Py_Type found_type)"

section \<open>Example bindings\<close>

text \<open>
  Three bindings for the examples below: one whose objects are text holding an integer,
  one whose objects are Python integers, and one whose objects are text holding an
  integer-like float.
\<close>

definition text_binding :: "unit binding" where
  "text_binding =
     \<lparr>extractor = (\<lambda>_. \<lparr>is_text = True, is_unicode_character = False, is_non_text = False\<rparr>),
      character_number_type = (\<lambda>_ _. {Integer, FromStr}),
      unicode_number_type = (\<lambda>_ _. {Integer, FromUni}),
      numeric_number_type = (\<lambda>_ _. {Integer, FromNum}),
      Py_TYPE = (\<lambda>_. PyOther_Type ''str'')\<rparr>"

definition numeric_binding :: "unit binding" where
  "numeric_binding =
     \<lparr>extractor = (\<lambda>_. \<lparr>is_text = False, is_unicode_character = False, is_non_text = True\<rparr>),
      character_number_type = (\<lambda>_ _. {INVALID}),
      unicode_number_type = (\<lambda>_ _. {INVALID}),
      numeric_number_type = (\<lambda>_ _. {Integer, FromNum}),
      Py_TYPE = (\<lambda>_. PyLong_Type)\<rparr>"

definition intlike_binding :: "unit binding" where
  "intlike_binding =
     \<lparr>extractor = (\<lambda>_. \<lparr>is_text = True, is_unicode_character = False, is_non_text = False\<rparr>),
      character_number_type = (\<lambda>_ _. {Float, IntLike, FromStr}),
      unicode_number_type = (\<lambda>_ _. {INVALID}),
      numeric_number_type = (\<lambda>_ _. {INVALID}),
      Py_TYPE = (\<lambda>_. PyOther_Type ''str'')\<rparr>"

section \<open>What the scanner sees from a cursor\<close>

text \<open>
  The definitions of this section are not part of the program: they describe, on the
  characters from a cursor onwards, what the loops of the scanner compute, and the lemmas
  below connect them with the program.  \<open>starts P xs\<close> tells whether the first character
  of \<open>xs\<close> satisfies \<open>P\<close>; \<open>float_shape\<close> gives the validity flag, the number of counted
  digits and the characters left over by the float part of the scanner, with the digits
  and the left-over of the fraction and of the exponent on their own; \<open>scan_shape\<close> does
  the same for the whole scanner; \<open>advance\<close> is the cursor that leaves \<open>rest\<close> unread.
\<close>

definition starts :: "(char \<Rightarrow> bool) \<Rightarrow> string \<Rightarrow> bool" where
  "starts P xs = (case xs of [] \<Rightarrow> False | x # _ \<Rightarrow> P x)"

definition skip_sign :: "string \<Rightarrow> string" where
  "skip_sign xs = (if starts is_sign xs then tl xs else xs)"

definition fraction_digits :: "string \<Rightarrow> string" where
  "fraction_digits r = (if starts is_decimal r then takeWhile is_valid_digit (tl r) else [])"

definition fraction_rest :: "string \<Rightarrow> string" where
  "fraction_rest r = (if starts is_decimal r then dropWhile is_valid_digit (tl r) else r)"

definition exponent_digits :: "string \<Rightarrow> string" where
  "exponent_digits r = takeWhile is_valid_digit (skip_sign (tl r))"

definition exponent_rest :: "string \<Rightarrow> string" where
  "exponent_rest r = dropWhile is_valid_digit (skip_sign (tl r))"

definition float_shape :: "string \<Rightarrow> bool \<times> nat \<times> string" where
  "float_shape xs =
     (let d1 = takeWhile is_valid_digit xs;
          r1 = dropWhile is_valid_digit xs;
          d2 = fraction_digits r1;
          r2 = fraction_rest r1;
          valid = (d1 \<noteq> [] \<or> d2 \<noteq> []);
          ex = (starts is_e_or_E r2 \<and> valid)
      in (if ex then exponent_digits r2 \<noteq> [] else valid,
          length d1 + length d2,
          if ex then exponent_rest r2 else r2))"

definition token :: "string \<Rightarrow> string \<Rightarrow> bool" where
  "token xs t \<longleftrightarrow> map ascii_tolower (take (length t) xs) = t"

definition scan_shape :: "string \<Rightarrow> bool \<times> string" where
  "scan_shape xs =
     (let ys = skip_sign xs;
          numeric = (case float_shape ys of (v, n, rest) \<Rightarrow> (v \<and> of_nat n < DBL_DIG, rest))
      in if starts is_n_or_N ys \<or> starts is_i_or_I ys then
           if token ys ''inf'' then
             (True, if token (drop 3 ys) ''inity'' then drop 8 ys else drop 3 ys)
           else if token ys ''nan'' then (True, drop 3 ys)
           else numeric
         else numeric)"

definition advance :: "string \<Rightarrow> nat \<Rightarrow> string \<Rightarrow> nat" where
  "advance buf p rest = p + (length (drop p buf) - length rest)"

text \<open>
  The trimmed form of a string, in the spec's words: the string without its leading and
  trailing white space.  \<open>blank_or_white\<close> holds for what may stand behind a stripped range:
  nothing, or characters of which the first is white space.
\<close>

definition trim :: "string \<Rightarrow> string" where
  "trim s = rev (dropWhile is_white_space (rev (dropWhile is_white_space s)))"

definition blank_or_white :: "string \<Rightarrow> bool" where
  "blank_or_white post \<longleftrightarrow> post = [] \<or> is_white_space (hd post)"

text \<open>
  The spec's grammar of a base-10 float literal, as a text in parts: an optional single
  sign, zero or more digits, optionally a decimal point followed by zero or more digits,
  optionally an exponent marker followed by an optional sign and one or more digits,
  with at least one digit in front of the exponent.  \<open>render\<close> writes the parts out and
  \<open>well_formed\<close> says that they follow the grammar.  The special tokens are the texts
  equal to "inf", "infinity" or "nan" up to letter case.
\<close>

definition optional_sign :: "string \<Rightarrow> bool" where
  "optional_sign sg \<longleftrightarrow> sg = [] \<or> sg = ''+'' \<or> sg = ''-''"

record float_text =
  sign_text :: string
  int_digits :: string
  has_point :: bool
  frac_digits :: string
  exponent :: "(char \<times> string \<times> string) option"

definition exponent_text :: "(char \<times> string \<times> string) option \<Rightarrow> string" where
  "exponent_text ex = (case ex of None \<Rightarrow> [] | Some (m, sg, ds) \<Rightarrow> m # sg @ ds)"

definition exponent_ok :: "(char \<times> string \<times> string) option \<Rightarrow> bool" where
  "exponent_ok ex \<longleftrightarrow>
     (case ex of None \<Rightarrow> True
      | Some (m, sg, ds) \<Rightarrow> is_e_or_E m \<and> optional_sign sg \<and> ds \<noteq> [] \<and> list_all is_valid_digit ds)"

definition render :: "float_text \<Rightarrow> string" where
  "render ft =
     sign_text ft @ int_digits ft @
     (if has_point ft then CHR ''.'' # frac_digits ft else []) @
     exponent_text (exponent ft)"

definition well_formed :: "float_text \<Rightarrow> bool" where
  "well_formed ft \<longleftrightarrow>
     optional_sign (sign_text ft) \<and>
     list_all is_valid_digit (int_digits ft) \<and>
     list_all is_valid_digit (frac_digits ft) \<and>
     (has_point ft \<or> frac_digits ft = []) \<and>
     int_digits ft @ frac_digits ft \<noteq> [] \<and>
     exponent_ok (exponent ft)"

definition special_token :: "string \<Rightarrow> bool" where
  "special_token t \<longleftrightarrow> map ascii_tolower t \<in> {''inf'', ''infinity'', ''nan''}"

text \<open>
  The value of a literal, for the comparison with the range of a double: digits are
  read with the macro \<open>ascii2uint\<close>, the digits in front of the exponent form the
  mantissa, and the exponent is lowered by the number of digits of the fraction.
  \<open>DBL_MAX\<close> is the largest finite IEEE 754 double, \<open>(2 - 2\<^sup>-\<^sup>5\<^sup>2) * 2\<^sup>1\<^sup>0\<^sup>2\<^sup>3\<close>.
\<close>

definition digits_value :: "string \<Rightarrow> nat" where
  "digits_value ds = foldl (\<lambda>acc c. 10 * acc + ascii2uint c) 0 ds"

definition literal_value :: "float_text \<Rightarrow> real" where
  "literal_value ft =
     (if sign_text ft = ''-'' then - 1 else 1) *
     real (digits_value (int_digits ft @ frac_digits ft)) *
     10 powi ((case exponent ft of
                 None \<Rightarrow> 0
               | Some (m, sg, ds) \<Rightarrow>
                   if sg = ''-'' then - int (digits_value ds) else int (digits_value ds))
              - int (length (frac_digits ft)))"

definition DBL_MAX :: real where
  "DBL_MAX = 2 ^ 1024 - 2 ^ 971"

text \<open>Two literals for the examples: sixteen digits, and a one with a large exponent.\<close>

definition sixteen_digits :: float_text where
  "sixteen_digits = \<lparr>sign_text = [], int_digits = ''1234567890123456'', has_point = False,
     frac_digits = [], exponent = None\<rparr>"

definition one_e400 :: float_text where
  "one_e400 = \<lparr>sign_text = [], int_digits = ''1'', has_point = False,
     frac_digits = [], exponent = Some (CHR ''e'', [], ''400'')\<rparr>"

text \<open>
  The characters the scanner can consume: digits, signs, the decimal point, exponent
  markers and the letters of the special tokens in either case.
\<close>

definition numeric_character :: "char \<Rightarrow> bool" where
  "numeric_character c \<longleftrightarrow>
     is_valid_digit c \<or> is_sign c \<or> is_decimal c \<or> is_e_or_E c \<or>
     ascii_tolower c \<in> set ''infinity'' \<union> set ''nan''"

section \<open>The grammar as a test\<close>

text \<open>
  The same grammar as a test that runs: a text is a literal when it can be cut into an
  optional sign and a special token, or into an optional sign, a mantissa and an
  exponent part, where a mantissa is digits, optionally followed by a decimal point and
  digits, with at least one digit, and an exponent part is empty or an exponent marker,
  an optional sign and one or more digits.  \<open>splits w\<close> lists the ways to cut \<open>w\<close> in two.
\<close>

definition splits :: "string \<Rightarrow> (string \<times> string) list" where
  "splits w = map (\<lambda>i. (take i w, drop i w)) [0..<Suc (length w)]"

definition mantissa_text :: "string \<Rightarrow> bool" where
  "mantissa_text m \<longleftrightarrow>
     list_ex (\<lambda>(ds, fr). list_all is_valid_digit ds \<and>
                (fr = [] \<or> starts is_decimal fr \<and> list_all is_valid_digit (tl fr)) \<and>
                ds @ tl fr \<noteq> [])
       (splits m)"

definition exponent_part :: "string \<Rightarrow> bool" where
  "exponent_part x \<longleftrightarrow>
     x = [] \<or>
     starts is_e_or_E x \<and>
     list_ex (\<lambda>(sg, ds). optional_sign sg \<and> ds \<noteq> [] \<and> list_all is_valid_digit ds) (splits (tl x))"

definition float_literal :: "string \<Rightarrow> bool" where
  "float_literal w \<longleftrightarrow>
     list_ex (\<lambda>(sg, body). optional_sign sg \<and>
                list_ex (\<lambda>(m, x). mantissa_text m \<and> exponent_part x) (splits body))
       (splits w)"

definition special_literal :: "string \<Rightarrow> bool" where
  "special_literal w \<longleftrightarrow> list_ex (\<lambda>(sg, t). optional_sign sg \<and> special_token t) (splits w)"

definition literal :: "string \<Rightarrow> bool" where
  "literal w \<longleftrightarrow> float_literal w \<or> special_literal w"

section \<open>The classifier\<close>

text \<open>
  Modelled from the spec: the evaluator and the parsers behind it, which produce the
  descriptor of an input, are missing (\<open>evaluator.hpp\<close>, \<open>parser.hpp\<close> and the files
  implementing them).  The model follows the sections on the Scanner and the Classifier
  of the spec.  An input is textual, a bounded range of characters, or non-textual, a
  native number: an integer, a floating-point number, or a floating-point number holding
  infinity or NaN.  The scanner trims the range, takes an optional single sign, and
  reports a special token when the remainder equals "inf" or "infinity", or "nan", up
  to letter case; otherwise the numeric grammars decide.  The numeric grammars (digits,
  underscores, decimal point, exponent, bases) are the parameter \<open>grammar\<close>: for a
  configuration and a remainder it answers \<open>None\<close> for \<open>NotNumeric\<close>, or whether a
  decimal point was present, whether an exponent was present, and whether fraction and
  exponent round to an integer without loss.  The classifier reads the nature of a
  native number directly and sets \<open>FromNum\<close>; for a text it returns the empty descriptor
  on \<open>NotNumeric\<close>, and otherwise sets \<open>FromStr\<close>, \<open>Integer\<close> if neither decimal point
  nor exponent was present or the base is not 10, \<open>Float\<close> if a decimal point or exponent
  was present or a special token matched, \<open>Infinity\<close> and \<open>NaN\<close> from the tag of the
  special token, and \<open>IntLike\<close> when \<open>Float\<close> is set, no special token matched and the
  literal rounds to an integer.  A special token has neither decimal point nor exponent,
  so the sentence on \<open>Integer\<close> as it is written gives it that flag too; nothing below
  depends on it.  The path of a single numeral character is integer-only and is left
  out.  \<open>found_infinity\<close> and \<open>found_nan\<close> say what an input holds; they do not see the
  configuration.
\<close>

datatype special_tag = NoToken | InfinityToken | NaNToken

record ScanResult =
  decimal_point_present :: bool
  exponent_present :: bool
  special :: special_tag
  rounds_to_integer :: bool

datatype native = NativeInteger | NativeFloat | NativeInfinity | NativeNaN

datatype classifier_input = Textual string | NonTextual native

definition scan ::
  "(UserOptions \<Rightarrow> string \<Rightarrow> (bool \<times> bool \<times> bool) option) \<Rightarrow> string \<Rightarrow> UserOptions \<Rightarrow>
   ScanResult option" where
  "scan grammar chars configuration =
     (let remainder = skip_sign (trim chars)
      in if map ascii_tolower remainder = ''inf'' \<or> map ascii_tolower remainder = ''infinity'' then
           Some \<lparr>decimal_point_present = False, exponent_present = False,
                 special = InfinityToken, rounds_to_integer = False\<rparr>
         else if map ascii_tolower remainder = ''nan'' then
           Some \<lparr>decimal_point_present = False, exponent_present = False,
                 special = NaNToken, rounds_to_integer = False\<rparr>
         else
           (case grammar configuration remainder of
              None \<Rightarrow> None
            | Some (point, expo, whole) \<Rightarrow>
                Some \<lparr>decimal_point_present = point, exponent_present = expo,
                      special = NoToken, rounds_to_integer = whole\<rparr>))"

definition classify_descriptor ::
  "(UserOptions \<Rightarrow> string \<Rightarrow> (bool \<times> bool \<times> bool) option) \<Rightarrow> classifier_input \<Rightarrow>
   UserOptions \<Rightarrow> NumberFlags" where
  "classify_descriptor grammar input configuration =
     (case input of
        NonTextual n \<Rightarrow>
          {FromNum} \<union>
          (case n of
             NativeInteger \<Rightarrow> {Integer}
           | NativeFloat \<Rightarrow> {Float}
           | NativeInfinity \<Rightarrow> {Float, Infinity}
           | NativeNaN \<Rightarrow> {Float, NaN})
      | Textual chars \<Rightarrow>
          (case scan grammar chars configuration of
             None \<Rightarrow> {}
           | Some r \<Rightarrow>
               (let is_float = (decimal_point_present r \<or> exponent_present r \<or> special r \<noteq> NoToken)
                in {FromStr} \<union>
                   (if \<not> decimal_point_present r \<and> \<not> exponent_present r \<or> base configuration \<noteq> 10
                    then {Integer} else {}) \<union>
                   (if is_float then {Float} else {}) \<union>
                   (case special r of
                      NoToken \<Rightarrow> {} | InfinityToken \<Rightarrow> {Infinity} | NaNToken \<Rightarrow> {NaN}) \<union>
                   (if is_float \<and> special r = NoToken \<and> rounds_to_integer r
                    then {IntLike} else {}))))"

definition found_infinity :: "classifier_input \<Rightarrow> bool" where
  "found_infinity input =
     (case input of
        NonTextual n \<Rightarrow> n = NativeInfinity
      | Textual chars \<Rightarrow>
          map ascii_tolower (skip_sign (trim chars)) = ''inf'' \<or>
          map ascii_tolower (skip_sign (trim chars)) = ''infinity'')"

definition found_nan :: "classifier_input \<Rightarrow> bool" where
  "found_nan input =
     (case input of
        NonTextual n \<Rightarrow> n = NativeNaN
      | Textual chars \<Rightarrow> map ascii_tolower (skip_sign (trim chars)) = ''nan'')"

text \<open>
  The binding whose evaluator is the classifier of the spec: a textual input is text to
  the extractor and a native number is not.
\<close>

definition classifier_binding ::
  "(UserOptions \<Rightarrow> string \<Rightarrow> (bool \<times> bool \<times> bool) option) \<Rightarrow> classifier_input binding" where
  "classifier_binding grammar =
     \<lparr>extractor = (\<lambda>input. case input of
          Textual _ \<Rightarrow> \<lparr>is_text = True, is_unicode_character = False, is_non_text = False\<rparr>
        | NonTextual _ \<Rightarrow> \<lparr>is_text = False, is_unicode_character = False, is_non_text = True\<rparr>),
      character_number_type = classify_descriptor grammar,
      unicode_number_type = classify_descriptor grammar,
      numeric_number_type = classify_descriptor grammar,
      Py_TYPE = (\<lambda>input. case input of
          Textual _ \<Rightarrow> PyOther_Type ''str''
        | NonTextual NativeInteger \<Rightarrow> PyLong_Type
        | NonTextual _ \<Rightarrow> PyFloat_Type)\<rparr>"

section \<open>The loops in closed form\<close>

lemma starts_simps [simp]: "starts P [] = False" "starts P (x # xs) = P x"
  by (simp_all add: starts_def)

lemma starts_nonempty: "starts P xs \<Longrightarrow> xs \<noteq> []"
  by (cases xs) simp_all

lemma NUL_simps [simp]:
  "\<not> is_valid_digit NUL" "\<not> is_white_space NUL" "\<not> is_sign NUL" "\<not> is_decimal NUL"
  "\<not> is_e_or_E NUL" "\<not> is_n_or_N NUL" "\<not> is_i_or_I NUL" "\<not> is_l_or_L NUL"
  by (simp_all add: NUL_def is_valid_digit_def is_white_space_def is_sign_def is_decimal_def
      is_e_or_E_def is_n_or_N_def is_i_or_I_def is_l_or_L_def is_negative_sign_def is_positive_sign_def)

lemma peek_drop: "peek buf p = (case drop p buf of [] \<Rightarrow> NUL | c # _ \<Rightarrow> c)"
proof (cases "p < length buf")
  case True
  then show ?thesis by (simp add: peek_def Cons_nth_drop_Suc [symmetric])
next
  case False
  then show ?thesis by (simp add: peek_def)
qed

lemma starts_peek: "\<not> P NUL \<Longrightarrow> P (peek buf p) = starts P (drop p buf)"
  by (simp add: peek_drop starts_def split: list.splits)

lemma drop_Suc_tl: "drop (Suc p) buf = tl (drop p buf)"
  by (simp add: drop_Suc tl_drop)

lemma drop_takeWhile_run:
  "drop (p + length (takeWhile P (drop p buf))) buf = dropWhile P (drop p buf)"
  by (metis add.commute drop_drop dropWhile_eq_drop)

lemma consume_counted_digits_closed:
  "consume_counted_digits buf p n v =
     Some (p + length (takeWhile is_valid_digit (drop p buf)),
           n + of_nat (length (takeWhile is_valid_digit (drop p buf))),
           v \<or> takeWhile is_valid_digit (drop p buf) \<noteq> [])"
proof (induction "length buf - p" arbitrary: p n v)
  case 0
  then have "drop p buf = []" by simp
  then show ?case
    by (subst consume_counted_digits.simps) (simp add: peek_def)
next
  case (Suc k)
  then have lt: "p < length buf" by simp
  then obtain c cs where dr: "drop p buf = c # cs"
    by (cases "drop p buf") auto
  then have pk: "peek buf p = c" and dr': "drop (Suc p) buf = cs"
    by (simp_all add: peek_drop drop_Suc_tl)
  have "k = length buf - (p + 1)" using Suc.hyps(2) by simp
  from Suc.hyps(1) [OF this] show ?case
    by (subst consume_counted_digits.simps) (simp add: pk dr dr')
qed

lemma consume_exponent_digits_closed:
  "consume_exponent_digits buf p v =
     Some (p + length (takeWhile is_valid_digit (drop p buf)),
           v \<or> takeWhile is_valid_digit (drop p buf) \<noteq> [])"
proof (induction "length buf - p" arbitrary: p v)
  case 0
  then have "drop p buf = []" by simp
  then show ?case
    by (subst consume_exponent_digits.simps) (simp add: peek_def)
next
  case (Suc k)
  then have lt: "p < length buf" by simp
  then obtain c cs where dr: "drop p buf = c # cs"
    by (cases "drop p buf") auto
  then have pk: "peek buf p = c" and dr': "drop (Suc p) buf = cs"
    by (simp_all add: peek_drop drop_Suc_tl)
  have "k = length buf - (p + 1)" using Suc.hyps(2) by simp
  from Suc.hyps(1) [OF this] show ?case
    by (subst consume_exponent_digits.simps) (simp add: pk dr dr')
qed

lemma consume_white_space_closed:
  "consume_white_space buf p = Some (p + length (takeWhile is_white_space (drop p buf)))"
proof (induction "length buf - p" arbitrary: p)
  case 0
  then have "drop p buf = []" by simp
  then show ?case
    by (subst consume_white_space.simps) (simp add: peek_def)
next
  case (Suc k)
  then have lt: "p < length buf" by simp
  then obtain c cs where dr: "drop p buf = c # cs"
    by (cases "drop p buf") auto
  then have pk: "peek buf p = c" and dr': "drop (Suc p) buf = cs"
    by (simp_all add: peek_drop drop_Suc_tl)
  have "k = length buf - (p + 1)" using Suc.hyps(2) by simp
  from Suc.hyps(1) [OF this] show ?case
    by (subst consume_white_space.simps) (simp add: pk dr dr')
qed

lemma consume_sign_drop: "drop (consume_sign buf p) buf = skip_sign (drop p buf)"
  by (simp add: consume_sign_def skip_sign_def starts_peek drop_Suc_tl)

lemma consume_sign_pos: "consume_sign buf p = p + (length (drop p buf) - length (skip_sign (drop p buf)))"
  by (cases "drop p buf") (auto simp add: consume_sign_def skip_sign_def starts_peek starts_def)

lemma length_take_drop_While: "length (takeWhile P xs) + length (dropWhile P xs) = length xs"
  by (metis length_append takeWhile_dropWhile_id)

lemma drop_Suc_tl': "drop p buf = r \<Longrightarrow> drop (Suc p) buf = tl r"
  by (metis drop_Suc_tl)

lemma length_skip_sign_le: "length (skip_sign xs) \<le> length xs"
  by (simp add: skip_sign_def)

text \<open>The decimal point and the digits behind it.\<close>

lemma fraction_step:
  assumes r1: "drop p1 buf = r1"
  shows "(if is_decimal (peek buf p1)
          then consume_counted_digits buf (p1 + 1) n v
          else Some (p1, n, v)) =
         Some (p1 + (length r1 - length (if starts is_decimal r1 then dropWhile is_valid_digit (tl r1) else r1)),
               n + of_nat (length (if starts is_decimal r1 then takeWhile is_valid_digit (tl r1) else [])),
               v \<or> (if starts is_decimal r1 then takeWhile is_valid_digit (tl r1) else []) \<noteq> [])"
proof (cases "starts is_decimal r1")
  case True
  then have ne: "r1 \<noteq> []" by (rule starts_nonempty)
  have tl: "drop (Suc p1) buf = tl r1" using r1 by (rule drop_Suc_tl')
  have "length (takeWhile is_valid_digit (tl r1)) + length (dropWhile is_valid_digit (tl r1)) = length (tl r1)"
    by (rule length_take_drop_While)
  moreover have "Suc (length (tl r1)) = length r1" using ne by simp
  ultimately have "Suc (length (takeWhile is_valid_digit (tl r1))) = length r1 - length (dropWhile is_valid_digit (tl r1))"
    by arith
  with True r1 tl show ?thesis
    by (simp add: starts_peek consume_counted_digits_closed)
next
  case False
  with r1 show ?thesis by (simp add: starts_peek)
qed

text \<open>The exponent: marker, sign and digits.\<close>

lemma exponent_step:
  assumes r2: "drop p2 buf = r2" and ex: "starts is_e_or_E r2"
  shows "consume_exponent_digits buf (consume_sign buf (p2 + 1)) False =
         Some (p2 + (length r2 - length (dropWhile is_valid_digit (skip_sign (tl r2)))),
               takeWhile is_valid_digit (skip_sign (tl r2)) \<noteq> [])"
proof -
  from ex have ne: "r2 \<noteq> []" by (rule starts_nonempty)
  have tl: "drop (Suc p2) buf = tl r2" using r2 by (rule drop_Suc_tl')
  have r3: "drop (consume_sign buf (Suc p2)) buf = skip_sign (tl r2)"
    by (simp only: consume_sign_drop tl)
  have p3: "consume_sign buf (Suc p2) = Suc p2 + (length (tl r2) - length (skip_sign (tl r2)))"
    using consume_sign_pos [of buf "Suc p2"] by (simp only: tl)
  have "length (skip_sign (tl r2)) \<le> length (tl r2)"
    by (rule length_skip_sign_le)
  moreover have "Suc (length (tl r2)) = length r2" using ne by simp
  moreover have "length (takeWhile is_valid_digit (skip_sign (tl r2))) +
      length (dropWhile is_valid_digit (skip_sign (tl r2))) = length (skip_sign (tl r2))"
    by (rule length_take_drop_While)
  ultimately have "consume_sign buf (Suc p2) + length (takeWhile is_valid_digit (skip_sign (tl r2))) =
      p2 + (length r2 - length (dropWhile is_valid_digit (skip_sign (tl r2))))"
    using p3 by arith
  then show ?thesis
    by (simp add: consume_exponent_digits_closed r3)
qed

lemma check_float_closed:
  "check_float buf p e =
     Some (case float_shape (drop p buf) of
             (v, n, rest) \<Rightarrow> v \<and> of_nat n < DBL_DIG \<and> advance buf p rest = e)"
proof -
  define xs where "xs = drop p buf"
  define d1 where "d1 = takeWhile is_valid_digit xs"
  define r1 where "r1 = dropWhile is_valid_digit xs"
  define p1 where "p1 = p + length d1"
  define d2 where "d2 = (if starts is_decimal r1 then takeWhile is_valid_digit (tl r1) else [])"
  define r2 where "r2 = (if starts is_decimal r1 then dropWhile is_valid_digit (tl r1) else r1)"
  define p2 where "p2 = p1 + (length r1 - length r2)"
  define r4 where "r4 = dropWhile is_valid_digit (skip_sign (tl r2))"
  have r1: "drop p1 buf = r1"
    unfolding p1_def d1_def r1_def xs_def by (rule drop_takeWhile_run)
  have len1: "length d1 + length r1 = length xs"
    unfolding d1_def r1_def by (rule length_take_drop_While)
  have len2: "length r2 \<le> length r1"
    unfolding r2_def by (auto intro: le_trans [OF length_dropWhile_le])
  have r2: "drop p2 buf = r2"
  proof -
    have "drop (length r1 - length r2) r1 = r2"
    proof (cases "starts is_decimal r1")
      case True
      then have ne: "r1 \<noteq> []" by (rule starts_nonempty)
      have "Suc (length (tl r1)) = length r1" using ne by simp
      moreover have "length (takeWhile is_valid_digit (tl r1)) +
          length (dropWhile is_valid_digit (tl r1)) = length (tl r1)"
        by (rule length_take_drop_While)
      ultimately have "length r1 - length (dropWhile is_valid_digit (tl r1)) =
          Suc (length (takeWhile is_valid_digit (tl r1)))"
        by arith
      then have "length r1 - length r2 = Suc (length (takeWhile is_valid_digit (tl r1)))"
        using True by (simp add: r2_def)
      then show ?thesis using True ne
        by (simp add: r2_def drop_Suc dropWhile_eq_drop)
    next
      case False
      then show ?thesis by (simp add: r2_def)
    qed
    then show ?thesis
      unfolding p2_def using r1 by (metis add.commute drop_drop)
  qed
  have step1: "consume_counted_digits buf p 0 False = Some (p1, of_nat (length d1), d1 \<noteq> [])"
    by (simp add: consume_counted_digits_closed p1_def d1_def xs_def)
  have step2: "(if is_decimal (peek buf p1)
          then consume_counted_digits buf (p1 + 1) (of_nat (length d1)) (d1 \<noteq> [])
          else Some (p1, of_nat (length d1), d1 \<noteq> [])) =
         Some (p2, of_nat (length d1 + length d2), d1 \<noteq> [] \<or> d2 \<noteq> [])"
    using fraction_step [OF r1, of "of_nat (length d1)" "d1 \<noteq> []"]
    by (simp add: p2_def r2_def d2_def)
  have step3: "starts is_e_or_E r2 \<Longrightarrow>
      consume_exponent_digits buf (consume_sign buf (Suc p2)) False =
         Some (p2 + (length r2 - length r4), takeWhile is_valid_digit (skip_sign (tl r2)) \<noteq> [])"
    unfolding r4_def using exponent_step [OF r2] by simp
  have len4: "length r4 \<le> length r2"
    unfolding r4_def
    using length_dropWhile_le [of is_valid_digit "skip_sign (tl r2)"] length_skip_sign_le [of "tl r2"]
    by simp
  have adv2: "advance buf p r2 = p2"
    using len1 len2 by (simp add: advance_def p2_def p1_def xs_def)
  have adv4: "advance buf p r4 = p2 + (length r2 - length r4)"
    using len1 len2 len4 by (simp add: advance_def p2_def p1_def xs_def)
  have shape: "float_shape (drop p buf) =
      (if starts is_e_or_E r2 \<and> (d1 \<noteq> [] \<or> d2 \<noteq> [])
       then takeWhile is_valid_digit (skip_sign (tl r2)) \<noteq> [] else (d1 \<noteq> [] \<or> d2 \<noteq> []),
       length d1 + length d2,
       if starts is_e_or_E r2 \<and> (d1 \<noteq> [] \<or> d2 \<noteq> []) then r4 else r2)"
    by (simp only: float_shape_def Let_def d1_def d2_def r1_def r2_def r4_def xs_def
        fraction_digits_def fraction_rest_def exponent_digits_def exponent_rest_def)
  have pk2: "is_e_or_E (peek buf p2) = starts is_e_or_E r2"
    using starts_peek [of is_e_or_E buf p2] r2 by simp
  show ?thesis
  proof (cases "starts is_e_or_E r2 \<and> (d1 \<noteq> [] \<or> d2 \<noteq> [])")
    case True
    then show ?thesis
      unfolding check_float_def step1 shape
      by (simp add: consume_python2_long_literal_lL_def PY_MAJOR_VERSION_def step2 step3 pk2 adv4)
  next
    case False
    then show ?thesis
      unfolding check_float_def step1 shape
      by (auto simp add: consume_python2_long_literal_lL_def PY_MAJOR_VERSION_def step2 pk2 adv2)
  qed
qed

lemma token_length: "token xs t \<Longrightarrow> length t \<le> length xs"
  unfolding token_def by (metis length_map length_take min.cobounded1 min_def nat_le_linear)

lemma case_insensitive_match_token: "case_insensitive_match buf p t = token (drop p buf) t"
  by (simp add: case_insensitive_match_def token_def)

lemma advance_skip_sign: "advance buf p rest = advance buf (consume_sign buf p) rest"
  if "length rest \<le> length (skip_sign (drop p buf))"
  using that length_skip_sign_le [of "drop p buf"] consume_sign_pos [of buf p]
  by (simp add: advance_def consume_sign_drop)

lemma float_shape_rest_le: "length (snd (snd (float_shape xs))) \<le> length xs"
proof -
  have a: "length (dropWhile is_valid_digit xs) \<le> length xs"
    by (rule length_dropWhile_le)
  have b: "length (dropWhile is_valid_digit (tl ys)) \<le> length ys" for ys
    using length_dropWhile_le [of is_valid_digit "tl ys"] by simp
  have c: "length (dropWhile is_valid_digit (skip_sign (tl ys))) \<le> length ys" for ys
    using length_dropWhile_le [of is_valid_digit "skip_sign (tl ys)"] length_skip_sign_le [of "tl ys"]
    by simp
  show ?thesis
    unfolding float_shape_def Let_def snd_conv
      fraction_digits_def fraction_rest_def exponent_digits_def exponent_rest_def
    using a b [of "dropWhile is_valid_digit xs"] c [of "dropWhile is_valid_digit xs"]
      c [of "dropWhile is_valid_digit (tl (dropWhile is_valid_digit xs))"]
    by (auto intro: le_trans)
qed

lemma scanner_closed:
  "string_contains_non_overflowing_float buf p e =
     Some (case scan_shape (drop p buf) of (ok, rest) \<Rightarrow> ok \<and> advance buf p rest = e)"
proof -
  define q where "q = consume_sign buf p"
  define ys where "ys = skip_sign (drop p buf)"
  have ys: "drop q buf = ys" by (simp add: q_def ys_def consume_sign_drop)
  have hd: "is_n_or_N (peek buf q) = starts is_n_or_N ys" "is_i_or_I (peek buf q) = starts is_i_or_I ys"
    using starts_peek [of _ buf q] ys by simp_all
  have adv: "length rest \<le> length ys \<Longrightarrow> advance buf p rest = advance buf q rest" for rest
    unfolding q_def ys_def by (rule advance_skip_sign)
  have numeric: "check_float buf q e =
      Some (case float_shape ys of (v, n, rest) \<Rightarrow> (v \<and> of_nat n < DBL_DIG) \<and> advance buf p rest = e)"
  proof -
    obtain v n rest where fs: "float_shape ys = (v, n, rest)"
      by (cases "float_shape ys") auto
    then have "length rest \<le> length ys"
      using float_shape_rest_le [of ys] by simp
    then have "advance buf p rest = advance buf q rest" by (rule adv)
    then show ?thesis by (simp add: check_float_closed ys fs)
  qed
  have a3: "3 \<le> length ys \<Longrightarrow> advance buf p (drop 3 ys) = q + 3"
    using adv [of "drop 3 ys"] ys by (simp add: advance_def)
  have a8: "8 \<le> length ys \<Longrightarrow> advance buf p (drop 8 ys) = q + 8"
    using adv [of "drop 8 ys"] ys by (simp add: advance_def)
  have inf: "token ys ''inf'' \<Longrightarrow> 3 \<le> length ys"
    using token_length [of ys "''inf''"] by simp
  have nan: "token ys ''nan'' \<Longrightarrow> 3 \<le> length ys"
    using token_length [of ys "''nan''"] by simp
  have inity: "token ys ''inf'' \<Longrightarrow> token (drop 3 ys) ''inity'' \<Longrightarrow> 8 \<le> length ys"
    using token_length [of "drop 3 ys" "''inity''"] by simp
  have m: "case_insensitive_match buf q t = token ys t" for t
    by (simp add: case_insensitive_match_token ys)
  have m3: "case_insensitive_match buf (q + 3) t = token (drop 3 ys) t" for t
  proof -
    have "drop (q + 3) buf = drop 3 ys"
      using ys by (metis add.commute drop_drop)
    then show ?thesis by (simp add: case_insensitive_match_token)
  qed
  show ?thesis
    unfolding string_contains_non_overflowing_float_def scan_shape_def Let_def
    unfolding q_def [symmetric] ys_def [symmetric] hd m m3 numeric
    using a3 a8 inf nan inity
    by (auto split: prod.splits)
qed

lemma retreat_white_space_returns: "\<exists>r. retreat_white_space buf start e = Some r"
proof (induction "nat (e + 1)" arbitrary: e)
  case 0
  then have "e < 0" by simp
  then show ?case by (subst retreat_white_space.simps) simp
next
  case (Suc k)
  then have "k = nat ((e - 1) + 1)" by simp
  from Suc.hyps(1) [OF this] show ?case
    by (subst retreat_white_space.simps) simp
qed

lemma strip_whitespace_returns: "\<exists>r. strip_whitespace buf start len = Some r"
proof -
  obtain r where "retreat_white_space buf
      (start + length (takeWhile is_white_space (drop start buf))) (int start + int len - 1) = Some r"
    using retreat_white_space_returns by blast
  then show ?thesis
    by (cases r) (simp_all add: strip_whitespace_def consume_white_space_closed)
qed

lemma run_within_buffer: "p + length (takeWhile P (drop p buf)) \<le> max p (length buf)"
  using length_takeWhile_le [of P "drop p buf"] by simp

section \<open>Termination of the scanning loops\<close>

text \<open>
  Claim C8.  Every scanning operation returns on every buffer: the scanner itself, its
  three forward loops, the backward loop of \<open>strip_whitespace\<close> and the macro as a whole.
  A forward loop moves the cursor one character per iteration and stops at the
  terminator at the latest, so the cursor it returns lies between the cursor it started
  from and the end of the buffer, and the digit counter has grown by the number of
  characters passed.
\<close>

theorem scanner_terminates_within_buffer:
  "(\<exists>r. string_contains_non_overflowing_float buf str end = Some r) \<and>
   (\<exists>p n v. consume_counted_digits buf str ndigits valid = Some (p, n, v) \<and>
      str \<le> p \<and> p \<le> max str (length buf) \<and> n = ndigits + of_nat (p - str)) \<and>
   (\<exists>p v. consume_exponent_digits buf str valid = Some (p, v) \<and>
      str \<le> p \<and> p \<le> max str (length buf)) \<and>
   (\<exists>p. consume_white_space buf str = Some p \<and> str \<le> p \<and> p \<le> max str (length buf)) \<and>
   (\<exists>r. retreat_white_space buf str back = Some r) \<and>
   (\<exists>r. strip_whitespace buf str len = Some r)"
proof (intro conjI)
  show "\<exists>r. string_contains_non_overflowing_float buf str end = Some r"
    by (simp add: scanner_closed)
  show "\<exists>p n v. consume_counted_digits buf str ndigits valid = Some (p, n, v) \<and>
      str \<le> p \<and> p \<le> max str (length buf) \<and> n = ndigits + of_nat (p - str)"
    using run_within_buffer [of str is_valid_digit buf]
    by (simp add: consume_counted_digits_closed)
  show "\<exists>p v. consume_exponent_digits buf str valid = Some (p, v) \<and>
      str \<le> p \<and> p \<le> max str (length buf)"
    using run_within_buffer [of str is_valid_digit buf]
    by (simp add: consume_exponent_digits_closed)
  show "\<exists>p. consume_white_space buf str = Some p \<and> str \<le> p \<and> p \<le> max str (length buf)"
    using run_within_buffer [of str is_white_space buf]
    by (simp add: consume_white_space_closed)
  show "\<exists>r. retreat_white_space buf str back = Some r"
    by (rule retreat_white_space_returns)
  show "\<exists>r. strip_whitespace buf str len = Some r"
    by (rule strip_whitespace_returns)
qed

theorem scanner_terminates_witness:
  "(\<exists>r. string_contains_non_overflowing_float ''12.5e+3 '' 0 7 = Some r) \<and>
   (\<exists>r. strip_whitespace ''  12.5e+3 '' 0 10 = Some r)"
  using scanner_terminates_within_buffer [of "''12.5e+3 ''" 0 7 0 False 0 0]
    scanner_terminates_within_buffer [of "''  12.5e+3 ''" 0 0 0 False 0 10]
  by blast

section \<open>The checks on descriptors\<close>

lemma has_flags_single [simp]: "has_flags flags {x} \<longleftrightarrow> x \<in> flags"
  by (simp add: has_flags_def)

lemma has_flags_pair [simp]: "has_flags flags {x, y} \<longleftrightarrow> x \<in> flags \<or> y \<in> flags"
  by (auto simp add: has_flags_def)

lemma resolve_types_unfold:
  "resolve_types flags options =
     (FromStr \<in> flags \<or> FromUni \<in> flags,
      Float \<in> flags \<and>
        \<not> (Infinity \<in> flags \<and>
             ((FromStr \<in> flags \<or> FromUni \<in> flags) \<and> \<not> allow_inf_str options \<or>
              FromNum \<in> flags \<and> \<not> allow_inf_num options)) \<and>
        \<not> (NaN \<in> flags \<and>
             ((FromStr \<in> flags \<or> FromUni \<in> flags) \<and> \<not> allow_nan_str options \<or>
              FromNum \<in> flags \<and> \<not> allow_nan_num options)),
      Integer \<in> flags,
      allow_coerce options \<and> IntLike \<in> flags)"
  by (auto simp add: resolve_types_def Let_def)

text \<open>
  Claim C7.  When the caller considers numbers only, an input that the extractor reports
  as text or as a single unicode character gets the descriptor \<open>INVALID\<close>; when the caller
  considers strings only, an input reported as non-text gets \<open>INVALID\<close>.  The evaluators
  of the binding are replaced by arbitrary ones in the statement: the verdict is reached
  before any of them is asked, whatever they would have found.
\<close>

theorem collect_type_rejects_unsupported_kind:
  "(is_text (extractor b obj) \<or> is_unicode_character (extractor b obj) \<longrightarrow>
      collect_type (b\<lparr>character_number_type := f, unicode_number_type := g, numeric_number_type := h\<rparr>)
        obj options (Some NUMBER_ONLY) = {INVALID}) \<and>
   (is_non_text (extractor b obj) \<longrightarrow>
      collect_type (b\<lparr>character_number_type := f, unicode_number_type := g, numeric_number_type := h\<rparr>)
        obj options (Some STRING_ONLY) = {INVALID})"
  by (simp add: collect_type_def)

theorem collect_type_rejects_witness:
  "collect_type text_binding () UserOptions_default (Some NUMBER_ONLY) = {INVALID} \<and>
   collect_type text_binding () UserOptions_default None = {Integer, FromStr}"
  using collect_type_rejects_unsupported_kind [of text_binding "()" "\<lambda>_ _. {Integer, FromStr}"
      "\<lambda>_ _. {Integer, FromUni}" "\<lambda>_ _. {Integer, FromNum}" UserOptions_default]
  by (simp add: text_binding_def collect_type_def)

subsection \<open>The descriptor of the classifier\<close>

lemma classify_descriptor_infinity:
  "Infinity \<in> classify_descriptor g input options \<longleftrightarrow> found_infinity input"
  by (auto simp add: classify_descriptor_def found_infinity_def scan_def Let_def
      split: classifier_input.splits native.splits option.splits special_tag.splits if_splits)

lemma classify_descriptor_nan:
  "NaN \<in> classify_descriptor g input options \<longleftrightarrow> found_nan input"
  by (auto simp add: classify_descriptor_def found_nan_def scan_def Let_def
      split: classifier_input.splits native.splits option.splits special_tag.splits if_splits)

lemma classify_descriptor_origin:
  "(FromStr \<in> classify_descriptor g input options \<longrightarrow> (\<exists>chars. input = Textual chars)) \<and>
   FromUni \<notin> classify_descriptor g input options \<and>
   (FromNum \<in> classify_descriptor g input options \<longleftrightarrow> (\<exists>n. input = NonTextual n))"
  by (auto simp add: classify_descriptor_def scan_def Let_def
      split: classifier_input.splits native.splits option.splits special_tag.splits if_splits)

lemma collect_type_classifier:
  "collect_type (classifier_binding g) input options None = classify_descriptor g input options"
  by (simp add: collect_type_def classifier_binding_def split: classifier_input.splits)

lemma found_origin:
  "found_infinity input \<or> found_nan input \<Longrightarrow>
   (\<exists>chars. input = Textual chars \<and> FromStr \<in> classify_descriptor g input options) \<or>
   (\<exists>n. input = NonTextual n)"
  by (auto simp add: classify_descriptor_def found_infinity_def found_nan_def scan_def Let_def
      split: classifier_input.splits)

lemma classifier_float_verdict:
  "fst (snd (resolve_types (classify_descriptor g input options) options)) \<longleftrightarrow>
     Float \<in> classify_descriptor g input options \<and>
     \<not> (found_infinity input \<and>
          \<not> (case input of Textual _ \<Rightarrow> allow_inf_str options
                          | NonTextual _ \<Rightarrow> allow_inf_num options)) \<and>
     \<not> (found_nan input \<and>
          \<not> (case input of Textual _ \<Rightarrow> allow_nan_str options
                          | NonTextual _ \<Rightarrow> allow_nan_num options))"
proof (cases input)
  case (Textual chars)
  have o: "FromUni \<notin> classify_descriptor g input options"
    "FromNum \<notin> classify_descriptor g input options"
    using classify_descriptor_origin [of g input options] Textual by simp_all
  have s: "FromStr \<in> classify_descriptor g input options"
    if "found_infinity input \<or> found_nan input"
    using found_origin [OF that, of g options] Textual by simp
  show ?thesis
    unfolding resolve_types_unfold classify_descriptor_infinity classify_descriptor_nan
    using o s Textual by auto
next
  case (NonTextual n)
  have o: "FromUni \<notin> classify_descriptor g input options"
    "FromStr \<notin> classify_descriptor g input options"
    "FromNum \<in> classify_descriptor g input options"
    using classify_descriptor_origin [of g input options] NonTextual by auto
  show ?thesis
    unfolding resolve_types_unfold classify_descriptor_infinity classify_descriptor_nan
    using o NonTextual by auto
qed

text \<open>
  Claim C3.  The classifier sets the \<open>Infinity\<close> flag exactly when the input holds an
  infinity and the \<open>NaN\<close> flag exactly when it holds a NaN, whatever the configuration
  and whatever the numeric grammars answer; \<open>collect_type\<close> hands on the descriptor of
  the evaluator as it is when the kind of the input is supported.  The policy is applied
  by \<open>resolve_types\<close>: its float verdict holds exactly when the descriptor has the
  \<open>Float\<close> flag and neither an \<open>Infinity\<close> flag that the options disallow for the
  origin of the input nor a \<open>NaN\<close> flag that they disallow for it.  The two origins are
  consulted independently: for a descriptor without \<open>FromNum\<close> the allowances for numbers
  change nothing, and for one without \<open>FromStr\<close> and \<open>FromUni\<close> the allowances for strings
  change nothing.  Together: for the descriptor that \<open>collect_type\<close> collects from the
  classifier, the float verdict is refused exactly when the \<open>Float\<close> flag is missing, or
  an infinity was found and the options disallow infinity for a text, respectively for
  a number, or the same for a NaN.
\<close>

theorem resolve_types_float_verdict:
  "(fst (snd (resolve_types flags options)) \<longleftrightarrow>
      Float \<in> flags \<and>
      \<not> (Infinity \<in> flags \<and>
           ((FromStr \<in> flags \<or> FromUni \<in> flags) \<and> \<not> allow_inf_str options \<or>
            FromNum \<in> flags \<and> \<not> allow_inf_num options)) \<and>
      \<not> (NaN \<in> flags \<and>
           ((FromStr \<in> flags \<or> FromUni \<in> flags) \<and> \<not> allow_nan_str options \<or>
            FromNum \<in> flags \<and> \<not> allow_nan_num options))) \<and>
   (FromNum \<notin> flags \<longrightarrow>
      resolve_types flags (options\<lparr>allow_inf_num := x, allow_nan_num := y\<rparr>) =
      resolve_types flags options) \<and>
   (FromStr \<notin> flags \<and> FromUni \<notin> flags \<longrightarrow>
      resolve_types flags (options\<lparr>allow_inf_str := x, allow_nan_str := y\<rparr>) =
      resolve_types flags options) \<and>
   (\<not> (consider = Some NUMBER_ONLY \<and>
        (is_text (extractor b obj) \<or> is_unicode_character (extractor b obj))) \<and>
    \<not> (consider = Some STRING_ONLY \<and> is_non_text (extractor b obj)) \<longrightarrow>
      collect_type b obj options consider =
        (if is_text (extractor b obj) then character_number_type b obj options
         else if is_unicode_character (extractor b obj) then unicode_number_type b obj options
         else numeric_number_type b obj options)) \<and>
   (Infinity \<in> classify_descriptor g input options \<longleftrightarrow> found_infinity input) \<and>
   (NaN \<in> classify_descriptor g input options \<longleftrightarrow> found_nan input) \<and>
   collect_type (classifier_binding g) input options None = classify_descriptor g input options \<and>
   (fst (snd (resolve_types (collect_type (classifier_binding g) input options None) options)) \<longleftrightarrow>
      Float \<in> classify_descriptor g input options \<and>
      \<not> (found_infinity input \<and>
           \<not> (case input of Textual _ \<Rightarrow> allow_inf_str options
                           | NonTextual _ \<Rightarrow> allow_inf_num options)) \<and>
      \<not> (found_nan input \<and>
           \<not> (case input of Textual _ \<Rightarrow> allow_nan_str options
                           | NonTextual _ \<Rightarrow> allow_nan_num options)))"
proof -
  have pass: "collect_type b obj options consider =
        (if is_text (extractor b obj) then character_number_type b obj options
         else if is_unicode_character (extractor b obj) then unicode_number_type b obj options
         else numeric_number_type b obj options)"
    if "\<not> (consider = Some NUMBER_ONLY \<and>
          (is_text (extractor b obj) \<or> is_unicode_character (extractor b obj)))"
      "\<not> (consider = Some STRING_ONLY \<and> is_non_text (extractor b obj))"
    using that unfolding collect_type_def Let_def by (simp only: if_False)
  have verdict: "fst (snd (resolve_types flags options)) \<longleftrightarrow>
      Float \<in> flags \<and>
      \<not> (Infinity \<in> flags \<and>
           ((FromStr \<in> flags \<or> FromUni \<in> flags) \<and> \<not> allow_inf_str options \<or>
            FromNum \<in> flags \<and> \<not> allow_inf_num options)) \<and>
      \<not> (NaN \<in> flags \<and>
           ((FromStr \<in> flags \<or> FromUni \<in> flags) \<and> \<not> allow_nan_str options \<or>
            FromNum \<in> flags \<and> \<not> allow_nan_num options))"
    by (simp add: resolve_types_unfold)
  have num: "resolve_types flags (options\<lparr>allow_inf_num := x, allow_nan_num := y\<rparr>) =
      resolve_types flags options" if "FromNum \<notin> flags"
    using that by (simp add: resolve_types_unfold)
  have str: "resolve_types flags (options\<lparr>allow_inf_str := x, allow_nan_str := y\<rparr>) =
      resolve_types flags options" if "FromStr \<notin> flags \<and> FromUni \<notin> flags"
    using that by (simp add: resolve_types_unfold)
  show ?thesis
  proof (intro conjI)
    show "fst (snd (resolve_types flags options)) \<longleftrightarrow>
      Float \<in> flags \<and>
      \<not> (Infinity \<in> flags \<and>
           ((FromStr \<in> flags \<or> FromUni \<in> flags) \<and> \<not> allow_inf_str options \<or>
            FromNum \<in> flags \<and> \<not> allow_inf_num options)) \<and>
      \<not> (NaN \<in> flags \<and>
           ((FromStr \<in> flags \<or> FromUni \<in> flags) \<and> \<not> allow_nan_str options \<or>
            FromNum \<in> flags \<and> \<not> allow_nan_num options))"
      by (rule verdict)
    show "FromNum \<notin> flags \<longrightarrow>
      resolve_types flags (options\<lparr>allow_inf_num := x, allow_nan_num := y\<rparr>) =
      resolve_types flags options"
      using num by blast
    show "FromStr \<notin> flags \<and> FromUni \<notin> flags \<longrightarrow>
      resolve_types flags (options\<lparr>allow_inf_str := x, allow_nan_str := y\<rparr>) =
      resolve_types flags options"
      using str by blast
    show "\<not> (consider = Some NUMBER_ONLY \<and>
        (is_text (extractor b obj) \<or> is_unicode_character (extractor b obj))) \<and>
      \<not> (consider = Some STRING_ONLY \<and> is_non_text (extractor b obj)) \<longrightarrow>
      collect_type b obj options consider =
        (if is_text (extractor b obj) then character_number_type b obj options
         else if is_unicode_character (extractor b obj) then unicode_number_type b obj options
         else numeric_number_type b obj options)"
      using pass by blast
    show "Infinity \<in> classify_descriptor g input options \<longleftrightarrow> found_infinity input"
      by (rule classify_descriptor_infinity)
    show "NaN \<in> classify_descriptor g input options \<longleftrightarrow> found_nan input"
      by (rule classify_descriptor_nan)
    show "collect_type (classifier_binding g) input options None =
      classify_descriptor g input options"
      by (rule collect_type_classifier)
    show "fst (snd (resolve_types (collect_type (classifier_binding g) input options None) options)) \<longleftrightarrow>
      Float \<in> classify_descriptor g input options \<and>
      \<not> (found_infinity input \<and>
           \<not> (case input of Textual _ \<Rightarrow> allow_inf_str options
                           | NonTextual _ \<Rightarrow> allow_inf_num options)) \<and>
      \<not> (found_nan input \<and>
           \<not> (case input of Textual _ \<Rightarrow> allow_nan_str options
                           | NonTextual _ \<Rightarrow> allow_nan_num options))"
      unfolding collect_type_classifier by (rule classifier_float_verdict)
  qed
qed

theorem resolve_types_float_verdict_witness:
  "\<not> fst (snd (resolve_types {Float, Infinity, FromStr} UserOptions_default)) \<and>
   fst (snd (resolve_types {Float, Infinity, FromStr} (UserOptions_default\<lparr>allow_inf_str := True\<rparr>))) \<and>
   \<not> fst (snd (resolve_types {Float, Infinity, FromStr}
          (UserOptions_default\<lparr>allow_inf_num := True, allow_nan_num := True\<rparr>))) \<and>
   collect_type numeric_binding () UserOptions_default (Some NUMBER_ONLY) = {Integer, FromNum} \<and>
   Infinity \<in> classify_descriptor (\<lambda>_ _. None) (Textual '' -Infinity '') UserOptions_default \<and>
   \<not> fst (snd (resolve_types
          (collect_type (classifier_binding (\<lambda>_ _. None)) (Textual '' -Infinity '')
             UserOptions_default None)
          UserOptions_default)) \<and>
   fst (snd (resolve_types
          (collect_type (classifier_binding (\<lambda>_ _. None)) (Textual '' -Infinity '')
             (UserOptions_default\<lparr>allow_inf_str := True\<rparr>) None)
          (UserOptions_default\<lparr>allow_inf_str := True\<rparr>))) \<and>
   NaN \<in> classify_descriptor (\<lambda>_ _. None) (NonTextual NativeNaN)
          (UserOptions_default\<lparr>allow_nan_str := True\<rparr>) \<and>
   \<not> fst (snd (resolve_types
          (collect_type (classifier_binding (\<lambda>_ _. None)) (NonTextual NativeNaN)
             (UserOptions_default\<lparr>allow_nan_str := True\<rparr>) None)
          (UserOptions_default\<lparr>allow_nan_str := True\<rparr>)))"
proof -
  let ?inf = "Textual '' -Infinity ''"
  let ?g = "\<lambda>(_::UserOptions) (_::string). None :: (bool \<times> bool \<times> bool) option"
  have fi: "found_infinity ?inf" "\<not> found_nan ?inf"
    by code_simp+
  have fn: "found_nan (NonTextual NativeNaN)" "\<not> found_infinity (NonTextual NativeNaN)"
    by (simp_all add: found_infinity_def found_nan_def)
  have fl: "Float \<in> classify_descriptor ?g ?inf options" for options
    using fi(1) by (simp add: classify_descriptor_def scan_def found_infinity_def Let_def)
  have fl': "Float \<in> classify_descriptor ?g (NonTextual NativeNaN) options" for options
    by (simp add: classify_descriptor_def)
  note t = resolve_types_float_verdict
  have "\<not> fst (snd (resolve_types {Float, Infinity, FromStr} UserOptions_default))"
    using t [of "{Float, Infinity, FromStr}" UserOptions_default, THEN conjunct1]
    by (simp add: UserOptions_default_def)
  moreover have "fst (snd (resolve_types {Float, Infinity, FromStr}
      (UserOptions_default\<lparr>allow_inf_str := True\<rparr>)))"
    using t [of "{Float, Infinity, FromStr}" "UserOptions_default\<lparr>allow_inf_str := True\<rparr>",
        THEN conjunct1]
    by (simp add: UserOptions_default_def)
  moreover have "\<not> fst (snd (resolve_types {Float, Infinity, FromStr}
          (UserOptions_default\<lparr>allow_inf_num := True, allow_nan_num := True\<rparr>)))"
    using t [of "{Float, Infinity, FromStr}" UserOptions_default True True,
        THEN conjunct2, THEN conjunct1]
      t [of "{Float, Infinity, FromStr}" UserOptions_default, THEN conjunct1]
    by (simp add: UserOptions_default_def)
  moreover have "collect_type numeric_binding () UserOptions_default (Some NUMBER_ONLY) =
      {Integer, FromNum}"
    using t [where b = numeric_binding and obj = "()" and options = UserOptions_default
        and ?consider = "Some NUMBER_ONLY",
        THEN conjunct2, THEN conjunct2, THEN conjunct2, THEN conjunct1]
    by (simp add: numeric_binding_def)
  moreover have "Infinity \<in> classify_descriptor ?g ?inf UserOptions_default"
    using t [where g = ?g and input = ?inf and options = UserOptions_default,
        THEN conjunct2, THEN conjunct2, THEN conjunct2, THEN conjunct2, THEN conjunct1] fi
    by simp
  moreover have "\<not> fst (snd (resolve_types
          (collect_type (classifier_binding ?g) ?inf UserOptions_default None)
          UserOptions_default))"
    using t [where g = ?g and input = ?inf and options = UserOptions_default,
        THEN conjunct2, THEN conjunct2, THEN conjunct2, THEN conjunct2, THEN conjunct2,
        THEN conjunct2, THEN conjunct2] fi
    by (simp add: UserOptions_default_def)
  moreover have "fst (snd (resolve_types
          (collect_type (classifier_binding ?g) ?inf
             (UserOptions_default\<lparr>allow_inf_str := True\<rparr>) None)
          (UserOptions_default\<lparr>allow_inf_str := True\<rparr>)))"
    using t [where g = ?g and input = ?inf
        and options = "UserOptions_default\<lparr>allow_inf_str := True\<rparr>",
        THEN conjunct2, THEN conjunct2, THEN conjunct2, THEN conjunct2, THEN conjunct2,
        THEN conjunct2, THEN conjunct2] fi fl
    by simp
  moreover have "NaN \<in> classify_descriptor ?g (NonTextual NativeNaN)
          (UserOptions_default\<lparr>allow_nan_str := True\<rparr>)"
    using t [where g = ?g and input = "NonTextual NativeNaN"
        and options = "UserOptions_default\<lparr>allow_nan_str := True\<rparr>",
        THEN conjunct2, THEN conjunct2, THEN conjunct2, THEN conjunct2, THEN conjunct2,
        THEN conjunct1] fn
    by simp
  moreover have "\<not> fst (snd (resolve_types
          (collect_type (classifier_binding ?g) (NonTextual NativeNaN)
             (UserOptions_default\<lparr>allow_nan_str := True\<rparr>) None)
          (UserOptions_default\<lparr>allow_nan_str := True\<rparr>)))"
    using t [where g = ?g and input = "NonTextual NativeNaN"
        and options = "UserOptions_default\<lparr>allow_nan_str := True\<rparr>",
        THEN conjunct2, THEN conjunct2, THEN conjunct2, THEN conjunct2, THEN conjunct2,
        THEN conjunct2, THEN conjunct2] fn
    by (simp add: UserOptions_default_def)
  ultimately show ?thesis by blast
qed

text \<open>
  Claim C9.  Let \<open>flags\<close> be the descriptor that \<open>float_check_impl\<close> collects.  For the
  target \<open>REAL\<close> a descriptor with the \<open>Integer\<close> flag is accepted whatever its origin.
  For the target \<open>FLOAT\<close> a descriptor without the \<open>Float\<close> flag is accepted exactly when
  it has the \<open>Integer\<close> flag, comes from a string or a unicode character, and strict mode
  is off; so an integer of numeric origin is refused whatever the strict flag.
\<close>

theorem float_check_integer_by_origin:
  assumes "options = set_nan_allowed nan' (set_inf_allowed inf'
             (set_underscores_allowed allow_underscores UserOptions_default))"
    and "flags = collect_type b input options consider"
  shows "(Integer \<in> flags \<longrightarrow> float_check_impl b input inf' nan' consider REAL allow_underscores strict) \<and>
         (Float \<notin> flags \<longrightarrow>
            float_check_impl b input inf' nan' consider FLOAT allow_underscores strict =
              (Integer \<in> flags \<and> (FromStr \<in> flags \<or> FromUni \<in> flags) \<and> \<not> strict)) \<and>
         (Integer \<in> flags \<and> Float \<notin> flags \<and> FromStr \<notin> flags \<and> FromUni \<notin> flags \<longrightarrow>
            \<not> float_check_impl b input inf' nan' consider FLOAT allow_underscores strict)"
  using assms by (auto simp add: float_check_impl_def resolve_types_unfold Let_def)

theorem float_check_integer_by_origin_witness:
  "float_check_impl numeric_binding () None None None REAL False False \<and>
   \<not> float_check_impl numeric_binding () None None None FLOAT False False \<and>
   \<not> float_check_impl numeric_binding () None None None FLOAT False True \<and>
   float_check_impl text_binding () None None None FLOAT False False \<and>
   \<not> float_check_impl text_binding () None None None FLOAT False True"
proof -
  let ?o = "set_nan_allowed None (set_inf_allowed None
             (set_underscores_allowed False UserOptions_default))"
  have n: "collect_type numeric_binding () ?o None = {Integer, FromNum}"
    by (simp add: collect_type_def numeric_binding_def)
  have t: "collect_type text_binding () ?o None = {Integer, FromStr}"
    by (simp add: collect_type_def text_binding_def)
  show ?thesis
    using float_check_integer_by_origin [OF refl n [symmetric], where strict = False]
      float_check_integer_by_origin [OF refl n [symmetric], where strict = True]
      float_check_integer_by_origin [OF refl t [symmetric], where strict = False]
      float_check_integer_by_origin [OF refl t [symmetric], where strict = True]
    by simp
qed

text \<open>
  Claim C10.  Let \<open>flags\<close> be the descriptor that \<open>type_query_impl\<close> collects.  The type it
  finds is \<open>int\<close> when the descriptor has the \<open>Integer\<close> flag, or the \<open>IntLike\<close> flag under
  coercion, also when the float verdict holds as well; it is \<open>float\<close> when only the float
  verdict holds, and the type of the input when neither verdict holds.  Without a
  collection of allowed types the found type is returned; with one, the found type is
  returned when the collection contains it and \<open>None\<close> otherwise.
\<close>

theorem type_query_integer_precedence:
  assumes "options = set_nan_allowed nan' (set_inf_allowed inf'
             (set_underscores_allowed allow_underscores (set_coerce coerce UserOptions_default)))"
    and "flags = collect_type b input options None"
    and "found = (if Integer \<in> flags \<or> coerce \<and> IntLike \<in> flags then PyLong_Type
                  else if fst (snd (resolve_types flags options)) then PyFloat_Type
                  else Py_TYPE b input)"
  shows "type_query_impl b input None inf' nan' allow_underscores coerce = Py_Type found \<and>
         type_query_impl b input (Some seq) inf' nan' allow_underscores coerce =
           (if found \<in> set seq then Py_Type found else Py_None)"
proof -
  have co: "allow_coerce options = coerce"
    using assms(1)
    by (simp add: set_nan_allowed_def set_inf_allowed_def set_underscores_allowed_def set_coerce_def)
  have rt: "resolve_types flags options =
      (fst (resolve_types flags options), fst (snd (resolve_types flags options)),
       Integer \<in> flags, coerce \<and> IntLike \<in> flags)"
    by (simp add: resolve_types_unfold co)
  show ?thesis
    unfolding type_query_impl_def assms(1) [symmetric] Let_def assms(2) [symmetric]
    by (subst rt, subst rt) (simp add: assms(3) PySequence_Contains_def)
qed

theorem type_query_integer_precedence_witness:
  "type_query_impl intlike_binding () None (Some ALLOWED) (Some ALLOWED) False True = Py_Type PyLong_Type \<and>
   type_query_impl intlike_binding () None (Some ALLOWED) (Some ALLOWED) False False = Py_Type PyFloat_Type \<and>
   type_query_impl intlike_binding () (Some [PyFloat_Type]) (Some ALLOWED) (Some ALLOWED) False True = Py_None"
proof -
  let ?o = "\<lambda>c. set_nan_allowed (Some ALLOWED) (set_inf_allowed (Some ALLOWED)
             (set_underscores_allowed False (set_coerce c UserOptions_default)))"
  have f: "collect_type intlike_binding () (?o c) None = {Float, IntLike, FromStr}" for c
    by (simp add: collect_type_def intlike_binding_def)
  show ?thesis
    using type_query_integer_precedence [OF refl f [symmetric] refl, where coerce = True and seq = "[PyFloat_Type]"]
      type_query_integer_precedence [OF refl f [symmetric] refl, where coerce = False and seq = "[]"]
    by (simp add: resolve_types_unfold)
qed

section \<open>Stripping and trimming\<close>

lemma white_space_inert:
  assumes "is_white_space c"
  shows "\<not> is_valid_digit c" "\<not> is_sign c" "\<not> is_decimal c" "\<not> is_e_or_E c"
    "\<not> is_n_or_N c" "\<not> is_i_or_I c" "ascii_tolower c = c"
  using assms
  by (auto simp add: is_white_space_def is_valid_digit_def is_sign_def is_negative_sign_def
      is_positive_sign_def is_decimal_def is_e_or_E_def is_n_or_N_def is_i_or_I_def ascii_tolower_def
      less_eq_char_def)

lemma white_space_not_letter:
  assumes "is_white_space c"
  shows "c \<notin> set ''infinity''" "c \<notin> set ''nan''"
  using assms by (auto simp add: is_white_space_def less_eq_char_def)

subsection \<open>Characters behind the range\<close>

lemma takeWhile_before: "\<not> starts P post \<Longrightarrow> takeWhile P (xs @ post) = takeWhile P xs"
  by (induction xs) (auto simp add: starts_def split: list.splits)

lemma dropWhile_before: "\<not> starts P post \<Longrightarrow> dropWhile P (xs @ post) = dropWhile P xs @ post"
  by (induction xs) (auto simp add: starts_def split: list.splits)

lemma starts_before: "\<not> starts P post \<Longrightarrow> starts P (xs @ post) = starts P xs"
  by (cases xs) simp_all

lemma blank_not_starts:
  assumes "blank_or_white post"
  shows "\<not> starts is_valid_digit post" "\<not> starts is_sign post" "\<not> starts is_decimal post"
    "\<not> starts is_e_or_E post" "\<not> starts is_n_or_N post" "\<not> starts is_i_or_I post"
  using assms white_space_inert by (cases post; auto simp add: blank_or_white_def)+

lemma skip_sign_before: "blank_or_white post \<Longrightarrow> skip_sign (xs @ post) = skip_sign xs @ post"
  by (cases xs) (simp_all add: skip_sign_def blank_not_starts)

lemma token_before:
  assumes "blank_or_white post" and "set t \<subseteq> set ''infinity'' \<union> set ''nan''"
  shows "token (xs @ post) t = token xs t"
proof (cases "length t \<le> length xs")
  case True
  then show ?thesis by (simp add: token_def)
next
  case False
  then have short: "length xs < length t" by simp
  then have no: "\<not> token xs t" using token_length [of xs t] by auto
  have "\<not> token (xs @ post) t"
  proof
    assume tk: "token (xs @ post) t"
    then have len: "length t \<le> length (xs @ post)" by (rule token_length)
    with short obtain c cs where post: "post = c # cs" by (cases post) auto
    with assms(1) have ws: "is_white_space c" by (simp add: blank_or_white_def)
    from tk have "map ascii_tolower (take (length t) (xs @ post)) ! length xs = t ! length xs"
      by (simp add: token_def)
    with short len post have "ascii_tolower c = t ! length xs"
      by (simp add: nth_append)
    with ws have "c = t ! length xs" by (simp add: white_space_inert)
    with short have "c \<in> set t" by simp
    with assms(2) ws white_space_not_letter show False by blast
  qed
  with no show ?thesis by simp
qed

lemma fraction_before:
  assumes "blank_or_white post"
  shows "fraction_digits (r @ post) = fraction_digits r"
    and "fraction_rest (r @ post) = fraction_rest r @ post"
proof -
  note b = blank_not_starts [OF assms]
  have tl: "starts is_decimal r \<Longrightarrow> tl (r @ post) = tl r @ post"
    by (cases r) simp_all
  show "fraction_digits (r @ post) = fraction_digits r"
    by (cases "starts is_decimal r") (simp_all add: fraction_digits_def starts_before b tl takeWhile_before)
  show "fraction_rest (r @ post) = fraction_rest r @ post"
    by (cases "starts is_decimal r") (simp_all add: fraction_rest_def starts_before b tl dropWhile_before)
qed

lemma exponent_before:
  assumes "blank_or_white post" and "starts is_e_or_E r"
  shows "exponent_digits (r @ post) = exponent_digits r"
    and "exponent_rest (r @ post) = exponent_rest r @ post"
proof -
  note b = blank_not_starts [OF assms(1)]
  have tl: "tl (r @ post) = tl r @ post"
    using assms(2) by (cases r) simp_all
  show "exponent_digits (r @ post) = exponent_digits r"
    by (simp add: exponent_digits_def tl skip_sign_before [OF assms(1)] takeWhile_before b)
  show "exponent_rest (r @ post) = exponent_rest r @ post"
    by (simp add: exponent_rest_def tl skip_sign_before [OF assms(1)] dropWhile_before b)
qed

lemma float_shape_before:
  assumes "blank_or_white post"
  shows "float_shape (xs @ post) =
     (fst (float_shape xs), fst (snd (float_shape xs)), snd (snd (float_shape xs)) @ post)"
proof -
  note b = blank_not_starts [OF assms]
  define r2 where "r2 = fraction_rest (dropWhile is_valid_digit xs)"
  show ?thesis
  proof (cases "starts is_e_or_E r2")
    case True
    then show ?thesis
      unfolding float_shape_def Let_def
      by (simp add: takeWhile_before dropWhile_before b fraction_before [OF assms]
          starts_before r2_def [symmetric] exponent_before [OF assms True])
  next
    case False
    then show ?thesis
      unfolding float_shape_def Let_def
      by (simp add: takeWhile_before dropWhile_before b fraction_before [OF assms]
          starts_before r2_def [symmetric])
  qed
qed

lemma scan_shape_before:
  assumes "blank_or_white post"
  shows "scan_shape (xs @ post) = (fst (scan_shape xs), snd (scan_shape xs) @ post)"
proof -
  note b = blank_not_starts [OF assms]
  define ys where "ys = skip_sign xs"
  have tk: "token (ys @ post) t = token ys t" if "t \<in> {''inf'', ''nan''}" for t
    using that by (auto intro!: token_before [OF assms])
  have d3: "token ys t \<Longrightarrow> length t = 3 \<Longrightarrow> drop 3 (ys @ post) = drop 3 ys @ post" for t
    using token_length [of ys t] by simp
  have tk3: "token ys ''inf'' \<Longrightarrow> token (drop 3 (ys @ post)) ''inity'' = token (drop 3 ys) ''inity''"
    using d3 [of "''inf''"] by (simp add: token_before [OF assms])
  have d8: "token ys ''inf'' \<Longrightarrow> token (drop 3 ys) ''inity'' \<Longrightarrow> drop 8 (ys @ post) = drop 8 ys @ post"
    using token_length [of "drop 3 ys" "''inity''"] by simp
  show ?thesis
    unfolding scan_shape_def Let_def skip_sign_before [OF assms] ys_def [symmetric]
    using tk3 d3 [of "''inf''"] d3 [of "''nan''"] d8
    by (simp add: tk starts_before b float_shape_before [OF assms] split: prod.splits)
qed

subsection \<open>The stripped range\<close>

lemma retreat_over_white_space:
  assumes "\<forall>c\<in>set post. is_white_space c" and "start < length u" and "k \<le> length post"
  shows "retreat_white_space (u @ post) start (int (length u + k) - 1) =
         retreat_white_space (u @ post) start (int (length u) - 1)"
  using assms(3)
proof (induction k)
  case 0
  then show ?case by simp
next
  case (Suc k)
  then have k: "k < length post" by simp
  then have "peek (u @ post) (length u + k) = post ! k"
    by (simp add: peek_def nth_append)
  with k assms(1) have ws: "is_white_space (peek (u @ post) (length u + k))" by simp
  have ne: "int start \<noteq> int (length u + k)" using assms(2) by simp
  have "retreat_white_space (u @ post) start (int (length u + Suc k) - 1) =
        retreat_white_space (u @ post) start (int (length u + k) - 1)"
    using ws ne by (subst retreat_white_space.simps) (simp add: nat_add_distrib)
  with Suc show ?case by simp
qed

lemma retreat_stops:
  assumes "u \<noteq> []" and "\<not> is_white_space (last u)"
  shows "retreat_white_space (u @ post) start (int (length u) - 1) = Some (Inr (int (length u) - 1))"
proof -
  have lt: "length u - 1 < length u" using assms(1) by (cases u) simp_all
  then have "length u - 1 < length (u @ post)" by simp
  then have "peek (u @ post) (length u - 1) = (u @ post) ! (length u - 1)"
    by (simp only: peek_def if_True)
  also have "\<dots> = u ! (length u - 1)"
    using lt by (simp only: nth_append if_True)
  also have "\<dots> = last u"
    using assms(1) by (simp add: last_conv_nth)
  finally have "peek (u @ post) (length u - 1) = last u" .
  moreover have "nat (int (length u) - 1) = length u - 1" by simp
  moreover have "\<not> int (length u) - 1 < 0" using assms(1) by (cases u) simp_all
  ultimately show ?thesis
    using assms(2) by (subst retreat_white_space.simps) simp
qed

lemma retreat_faults:
  assumes "\<forall>c\<in>set buf. is_white_space c" and "k \<le> length buf"
  shows "retreat_white_space buf (length buf) (int k - 1) = Some (Inl OutOfBounds)"
  using assms(2)
proof (induction k)
  case 0
  then show ?case by (subst retreat_white_space.simps) simp
next
  case (Suc k)
  then have k: "k < length buf" by simp
  with assms(1) have "is_white_space (peek buf k)" by (simp add: peek_def)
  moreover have "int (length buf) \<noteq> int k" using k by simp
  ultimately have "retreat_white_space buf (length buf) (int (Suc k) - 1) =
        retreat_white_space buf (length buf) (int k - 1)"
    by (subst retreat_white_space.simps) simp
  with Suc show ?case by simp
qed

lemma strip_whitespace_range:
  assumes pre: "\<forall>c\<in>set pre. is_white_space c" and post: "\<forall>c\<in>set post. is_white_space c"
    and mid: "mid \<noteq> []" "\<not> is_white_space (hd mid)" "\<not> is_white_space (last mid)"
  shows "strip_whitespace (pre @ mid @ post) 0 (length (pre @ mid @ post)) =
         Some (Inr (length pre, length pre + length mid))"
proof -
  have tw: "takeWhile is_white_space (pre @ mid @ post) = pre"
    using pre mid by (cases mid) (simp_all add: takeWhile_append2)
  have start: "consume_white_space (pre @ mid @ post) 0 = Some (length pre)"
    by (simp add: consume_white_space_closed tw)
  have "retreat_white_space ((pre @ mid) @ post) (length pre) (int (length (pre @ mid) + length post) - 1) =
        retreat_white_space ((pre @ mid) @ post) (length pre) (int (length (pre @ mid)) - 1)"
    using mid(1) by (intro retreat_over_white_space [OF post]) simp_all
  also have "\<dots> = Some (Inr (int (length (pre @ mid)) - 1))"
    using mid by (intro retreat_stops) simp_all
  finally have bk: "retreat_white_space (pre @ mid @ post) (length pre)
      (int (length (pre @ mid @ post)) - 1) = Some (Inr (int (length pre + length mid) - 1))"
    by (simp add: add.assoc)
  show ?thesis
    unfolding strip_whitespace_def start
    using bk by (simp add: nat_add_distrib)
qed

lemma strip_whitespace_blank:
  assumes "\<forall>c\<in>set buf. is_white_space c"
  shows "strip_whitespace buf 0 (length buf) = Some (Inl OutOfBounds)"
proof -
  have tw: "takeWhile is_white_space buf = buf" using assms by (metis takeWhile_eq_all_conv)
  have start: "consume_white_space buf 0 = Some (length buf)"
    by (simp add: consume_white_space_closed tw)
  show ?thesis
    unfolding strip_whitespace_def start
    using retreat_faults [OF assms le_refl] by simp
qed

text \<open>
  The length handed to \<open>strip_whitespace\<close> is the number of characters in front of the
  terminator.  Were the terminator counted, as the comment in the macro has it, \<open>end\<close>
  would start on the terminator, which is not white space, and end up behind it, where
  no cursor of the scanner arrives: no string would be accepted.
\<close>

lemma terminator_counted_never_accepted:
  assumes "strip_whitespace buf 0 (length buf + 1) = Some (Inr (start, end))"
  shows "string_contains_non_overflowing_float buf start end = Some False"
proof -
  define s where "s = length (takeWhile is_white_space buf)"
  have sl: "s \<le> length buf" unfolding s_def by (rule length_takeWhile_le)
  have cw: "consume_white_space buf 0 = Some s"
    by (simp add: consume_white_space_closed s_def)
  have "retreat_white_space buf s (int (length buf)) = Some (Inr (int (length buf)))"
    by (subst retreat_white_space.simps) (simp add: peek_def)
  with assms cw have se: "start = s" "end = length buf + 1"
    by (simp_all add: strip_whitespace_def nat_add_distrib)
  have le: "advance buf start rest \<le> length buf" for rest
    using sl by (simp add: advance_def se)
  have "advance buf start rest \<noteq> end" for rest
    using le [of rest] unfolding se(2) by arith
  then show ?thesis
    by (simp add: scanner_closed split: prod.splits)
qed

lemma trim_blank: "(\<forall>c\<in>set s. is_white_space c) \<Longrightarrow> trim s = []"
proof -
  assume "\<forall>c\<in>set s. is_white_space c"
  then have d: "dropWhile is_white_space s = []" by (metis dropWhile_eq_Nil_conv)
  show ?thesis by (simp add: trim_def d)
qed

lemma scan_shape_rest_le: "length (snd (scan_shape xs)) \<le> length xs"
proof -
  have "length (snd (snd (float_shape (skip_sign xs)))) \<le> length xs"
    using float_shape_rest_le [of "skip_sign xs"] length_skip_sign_le [of xs] by simp
  moreover have "length (drop n (skip_sign xs)) \<le> length xs" for n
    using length_skip_sign_le [of xs] by simp
  moreover obtain v n rest where "float_shape (skip_sign xs) = (v, n, rest)"
    by (cases "float_shape (skip_sign xs)") auto
  ultimately show ?thesis
    by (simp add: scan_shape_def Let_def)
qed

lemma trim_parts:
  assumes "\<exists>c\<in>set s. \<not> is_white_space c"
  shows "\<exists>pre post. s = pre @ trim s @ post \<and> (\<forall>c\<in>set pre. is_white_space c) \<and>
           (\<forall>c\<in>set post. is_white_space c) \<and> trim s \<noteq> [] \<and>
           \<not> is_white_space (hd (trim s)) \<and> \<not> is_white_space (last (trim s))"
proof -
  define pre where "pre = takeWhile is_white_space s"
  define r where "r = dropWhile is_white_space s"
  define post where "post = rev (takeWhile is_white_space (rev r))"
  have s: "s = pre @ r" by (simp add: pre_def r_def)
  have r: "r \<noteq> []" using assms by (simp add: r_def)
  then have hd: "\<not> is_white_space (hd r)" unfolding r_def by (rule hd_dropWhile)
  have tr: "trim s = rev (dropWhile is_white_space (rev r))" by (simp add: trim_def r_def)
  have "rev r = takeWhile is_white_space (rev r) @ dropWhile is_white_space (rev r)" by simp
  then have "r = rev (dropWhile is_white_space (rev r)) @ rev (takeWhile is_white_space (rev r))"
    by (metis rev_append rev_rev_ident)
  then have r': "r = trim s @ post" by (simp add: tr post_def)
  have ex: "\<exists>c\<in>set (rev r). \<not> is_white_space c"
    using r hd by (metis hd_in_set set_rev)
  then have ne: "dropWhile is_white_space (rev r) \<noteq> []" by simp
  then have t: "trim s \<noteq> []" by (simp add: tr)
  have "\<not> is_white_space (hd (dropWhile is_white_space (rev r)))"
    using ne by (rule hd_dropWhile)
  then have last: "\<not> is_white_space (last (trim s))"
    using ne by (simp add: tr last_rev)
  have "hd (trim s) = hd r" using r' t by (metis hd_append2)
  with hd have hd': "\<not> is_white_space (hd (trim s))" by simp
  have "\<forall>c\<in>set pre. is_white_space c"
    unfolding pre_def by (meson set_takeWhileD)
  moreover have "\<forall>c\<in>set post. is_white_space c"
    unfolding post_def by (metis set_rev set_takeWhileD)
  ultimately show ?thesis using s r' t hd' last by blast
qed

lemma classify_range:
  assumes pre: "\<forall>c\<in>set pre. is_white_space c" and post: "\<forall>c\<in>set post. is_white_space c"
    and mid: "mid \<noteq> []" "\<not> is_white_space (hd mid)" "\<not> is_white_space (last mid)"
  shows "classify (pre @ mid @ post) =
         Some (Inr (fst (scan_shape mid) \<and> snd (scan_shape mid) = []))"
proof -
  have bw: "blank_or_white post"
    using post by (cases post) (simp_all add: blank_or_white_def)
  obtain ok rest where sh: "scan_shape mid = (ok, rest)" by (cases "scan_shape mid") auto
  have sh': "scan_shape (mid @ post) = (ok, rest @ post)"
    using scan_shape_before [OF bw, of mid] sh by simp
  have le: "length rest \<le> length mid"
    using scan_shape_rest_le [of mid] sh by simp
  have "length pre + (length mid - length rest) = length pre + length mid \<longleftrightarrow> length rest = 0"
    using le by arith
  then have "advance (pre @ mid @ post) (length pre) (rest @ post) = length pre + length mid \<longleftrightarrow> rest = []"
    using le by (simp add: advance_def)
  then show ?thesis
    unfolding classify_def strip_whitespace_range [OF assms]
    by (simp add: scanner_closed sh' sh)
qed

lemma trim_leading: "\<forall>c\<in>set pre. is_white_space c \<Longrightarrow> trim (pre @ s) = trim s"
  by (simp add: trim_def dropWhile_append2)

lemma trim_trailing:
  assumes "\<forall>c\<in>set post. is_white_space c"
  shows "trim (s @ post) = trim s"
proof (cases "\<forall>c\<in>set s. is_white_space c")
  case True
  with assms have "\<forall>c\<in>set (s @ post). is_white_space c" by auto
  then have "trim (s @ post) = []" by (rule trim_blank)
  with True show ?thesis by (simp add: trim_blank)
next
  case False
  then have "dropWhile is_white_space (s @ post) = dropWhile is_white_space s @ post"
    by (auto simp add: dropWhile_append1)
  moreover have "dropWhile is_white_space (rev post @ ys) = dropWhile is_white_space ys" for ys
    by (rule dropWhile_append2) (use assms in simp)
  ultimately show ?thesis by (simp add: trim_def)
qed

lemma classify_blank:
  "\<forall>c\<in>set s. is_white_space c \<Longrightarrow> classify s = Some (Inl OutOfBounds)"
  by (simp add: classify_def strip_whitespace_blank)

lemma classify_trim: "classify s = classify (trim s)"
proof (cases "\<forall>c\<in>set s. is_white_space c")
  case True
  then have "trim s = []" by (rule trim_blank)
  with True show ?thesis by (simp add: classify_blank)
next
  case False
  then obtain pre post where s: "s = pre @ trim s @ post"
    and pre: "\<forall>c\<in>set pre. is_white_space c" and post: "\<forall>c\<in>set post. is_white_space c"
    and mid: "trim s \<noteq> []" "\<not> is_white_space (hd (trim s))" "\<not> is_white_space (last (trim s))"
    using trim_parts [of s] by blast
  have "classify (pre @ trim s @ post) = classify ([] @ trim s @ [])"
    using classify_range [OF pre post mid] classify_range [OF _ _ mid, of "[]" "[]"] by simp
  with s show ?thesis by simp
qed

text \<open>
  Claim C6.  White space is the space character and the characters from tab to carriage
  return.  Classifying a string gives what classifying its trimmed form gives, and
  putting white space in front of a string and behind it does not change what
  classifying it gives.  A string with a character that is not white space gets a
  verdict; for a string of white space only (the empty string too) the backward loop of
  \<open>strip_whitespace\<close> reads in front of the buffer, for the string and for its trimmed form
  alike.
\<close>

theorem classify_ignores_outer_white_space:
  "classify s = classify (trim s) \<and>
   ((\<forall>c\<in>set pre. is_white_space c) \<and> (\<forall>c\<in>set post. is_white_space c) \<longrightarrow>
      classify (pre @ s @ post) = classify s) \<and>
   ((\<exists>c\<in>set s. \<not> is_white_space c) \<longrightarrow> (\<exists>verdict. classify s = Some (Inr verdict)))"
proof (intro conjI impI)
  show "classify s = classify (trim s)" by (rule classify_trim)
next
  assume "(\<forall>c\<in>set pre. is_white_space c) \<and> (\<forall>c\<in>set post. is_white_space c)"
  then have "trim (pre @ s @ post) = trim s"
    by (simp add: trim_leading trim_trailing)
  then show "classify (pre @ s @ post) = classify s"
    using classify_trim [of "pre @ s @ post"] classify_trim [of s] by simp
next
  assume "\<exists>c\<in>set s. \<not> is_white_space c"
  then obtain pre post where s: "s = pre @ trim s @ post"
    and pre: "\<forall>c\<in>set pre. is_white_space c" and post: "\<forall>c\<in>set post. is_white_space c"
    and mid: "trim s \<noteq> []" "\<not> is_white_space (hd (trim s))" "\<not> is_white_space (last (trim s))"
    using trim_parts [of s] by blast
  from classify_range [OF pre post mid] s show "\<exists>verdict. classify s = Some (Inr verdict)"
    by simp
qed

theorem classify_ignores_outer_white_space_witness:
  "classify ''  -3.50  '' = Some (Inr True) \<and> classify ''-3.50'' = Some (Inr True) \<and>
   trim ''  -3.50  '' = ''-3.50'' \<and>
   classify ([CHR 0x09] @ ''1 2'' @ [CHR 0x0D, CHR 0x0A]) = Some (Inr False)"
proof -
  have a: "classify ''-3.50'' = Some (Inr True)" by code_simp
  have b: "trim ''  -3.50  '' = ''-3.50''" by code_simp
  have c: "classify ''1 2'' = Some (Inr False)" by code_simp
  have ws: "(\<forall>c\<in>set [CHR 0x09]. is_white_space c) \<and> (\<forall>c\<in>set [CHR 0x0D, CHR 0x0A]. is_white_space c)"
    by (simp add: is_white_space_def)
  show ?thesis
    using classify_ignores_outer_white_space [of "''  -3.50  ''" "[]" "[]"]
      classify_ignores_outer_white_space [of "''1 2''" "[CHR 0x09]" "[CHR 0x0D, CHR 0x0A]"] a b c ws
    by simp
qed

section \<open>Letters and special tokens\<close>

lemma ascii_tolower_eq:
  "ascii_tolower c = d \<longleftrightarrow>
     (if CHR ''A'' \<le> c \<and> c \<le> CHR ''Z'' then (of_char c :: nat) + 32 = of_char d else c = d)"
proof (cases "CHR ''A'' \<le> c \<and> c \<le> CHR ''Z''")
  case True
  then have "(of_char c :: nat) + 32 < 256" by (simp add: less_eq_char_def)
  then have "of_char (char_of (of_char c + (32::nat))) = (of_char c :: nat) + 32" by simp
  then have "char_of (of_char c + (32::nat)) = d \<longleftrightarrow> (of_char c :: nat) + 32 = of_char d"
    by (metis of_char_eq_iff)
  with True show ?thesis by (simp add: ascii_tolower_def)
next
  case False
  then show ?thesis by (auto simp add: ascii_tolower_def)
qed

lemma upper_case_codes:
  "(of_char c :: nat) = 73 \<longleftrightarrow> c = CHR ''I''"
  "(of_char c :: nat) = 78 \<longleftrightarrow> c = CHR ''N''"
  "(of_char c :: nat) = 70 \<longleftrightarrow> c = CHR ''F''"
  "(of_char c :: nat) = 84 \<longleftrightarrow> c = CHR ''T''"
  "(of_char c :: nat) = 89 \<longleftrightarrow> c = CHR ''Y''"
  "(of_char c :: nat) = 65 \<longleftrightarrow> c = CHR ''A''"
  using of_char_eq_iff [of c "CHR ''I''", where ?'a = nat]
    of_char_eq_iff [of c "CHR ''N''", where ?'a = nat]
    of_char_eq_iff [of c "CHR ''F''", where ?'a = nat]
    of_char_eq_iff [of c "CHR ''T''", where ?'a = nat]
    of_char_eq_iff [of c "CHR ''Y''", where ?'a = nat]
    of_char_eq_iff [of c "CHR ''A''", where ?'a = nat]
  by simp_all

lemma tolower_letter:
  "ascii_tolower c = CHR ''i'' \<longleftrightarrow> c = CHR ''i'' \<or> c = CHR ''I''"
  "ascii_tolower c = CHR ''n'' \<longleftrightarrow> c = CHR ''n'' \<or> c = CHR ''N''"
  "ascii_tolower c = CHR ''f'' \<longleftrightarrow> c = CHR ''f'' \<or> c = CHR ''F''"
  "ascii_tolower c = CHR ''t'' \<longleftrightarrow> c = CHR ''t'' \<or> c = CHR ''T''"
  "ascii_tolower c = CHR ''y'' \<longleftrightarrow> c = CHR ''y'' \<or> c = CHR ''Y''"
  "ascii_tolower c = CHR ''a'' \<longleftrightarrow> c = CHR ''a'' \<or> c = CHR ''A''"
  by (auto simp add: ascii_tolower_eq less_eq_char_def upper_case_codes)

lemma token_letters:
  assumes "map ascii_tolower t = l" and "set l \<subseteq> set ''infinity'' \<union> set ''nan''" and "c \<in> set t"
  shows "\<not> is_white_space c" "\<not> is_valid_digit c" "\<not> is_sign c" "\<not> is_decimal c" "\<not> is_e_or_E c"
proof -
  from assms(1,3) have "ascii_tolower c \<in> set l" by auto
  with assms(2) have "ascii_tolower c \<in> set ''infinity'' \<union> set ''nan''" by blast
  then have "c \<in> set ''infinityINFINITY'' \<union> set ''nanNAN''"
    by (auto simp add: tolower_letter)
  then show "\<not> is_white_space c" "\<not> is_valid_digit c" "\<not> is_sign c" "\<not> is_decimal c" "\<not> is_e_or_E c"
    by (auto simp add: is_white_space_def is_valid_digit_def is_sign_def is_negative_sign_def
        is_positive_sign_def is_decimal_def is_e_or_E_def less_eq_char_def)
qed

section \<open>The scanner and the grammar\<close>

subsection \<open>From an accepted range to the grammar\<close>

lemma list_all_takeWhile: "list_all P (takeWhile P xs)"
  by (induction xs) simp_all

lemma skip_sign_split: "\<exists>sg. optional_sign sg \<and> xs = sg @ skip_sign xs"
proof (cases "starts is_sign xs")
  case True
  then obtain c cs where xs: "xs = c # cs" and c: "is_sign c" by (cases xs) simp_all
  then have "optional_sign [c]"
    by (auto simp add: optional_sign_def is_sign_def is_negative_sign_def is_positive_sign_def)
  with xs c show ?thesis by (intro exI [of _ "[c]"]) (simp add: skip_sign_def)
next
  case False
  then show ?thesis by (intro exI [of _ "[]"]) (simp add: skip_sign_def optional_sign_def)
qed

lemma fraction_split:
  "r = (if starts is_decimal r then CHR ''.'' # fraction_digits r else []) @ fraction_rest r"
  "list_all is_valid_digit (fraction_digits r)"
  "starts is_decimal r \<or> fraction_digits r = []"
  by (cases r; simp add: fraction_digits_def fraction_rest_def is_decimal_def list_all_takeWhile)+

lemma exponent_split:
  assumes "starts is_e_or_E r"
  shows "\<exists>m sg. is_e_or_E m \<and> optional_sign sg \<and> r = m # sg @ exponent_digits r @ exponent_rest r"
proof -
  from assms obtain m cs where r: "r = m # cs" and m: "is_e_or_E m" by (cases r) simp_all
  obtain sg where sg: "optional_sign sg" "cs = sg @ skip_sign cs"
    using skip_sign_split by blast
  have "skip_sign cs = exponent_digits r @ exponent_rest r"
    by (simp add: exponent_digits_def exponent_rest_def r)
  with r m sg show ?thesis by metis
qed

lemma float_shape_render:
  assumes "float_shape xs = (True, n, rest)"
  shows "\<exists>ft. well_formed ft \<and> sign_text ft = [] \<and> xs = render ft @ rest \<and>
           n = length (int_digits ft) + length (frac_digits ft)"
proof -
  define d1 where "d1 = takeWhile is_valid_digit xs"
  define r1 where "r1 = dropWhile is_valid_digit xs"
  define d2 where "d2 = fraction_digits r1"
  define r2 where "r2 = fraction_rest r1"
  define pt where "pt = starts is_decimal r1"
  have xs: "xs = d1 @ r1" by (simp add: d1_def r1_def)
  have r1: "r1 = (if pt then CHR ''.'' # d2 else []) @ r2"
    unfolding pt_def d2_def r2_def by (rule fraction_split)
  have dig: "list_all is_valid_digit d1" "list_all is_valid_digit d2" "pt \<or> d2 = []"
    unfolding d1_def d2_def pt_def by (simp_all add: list_all_takeWhile fraction_split)
  have shape: "float_shape xs =
     (if starts is_e_or_E r2 \<and> (d1 \<noteq> [] \<or> d2 \<noteq> []) then exponent_digits r2 \<noteq> [] else d1 \<noteq> [] \<or> d2 \<noteq> [],
      length d1 + length d2,
      if starts is_e_or_E r2 \<and> (d1 \<noteq> [] \<or> d2 \<noteq> []) then exponent_rest r2 else r2)"
    by (simp only: float_shape_def Let_def d1_def d2_def r1_def r2_def)
  show ?thesis
  proof (cases "starts is_e_or_E r2 \<and> (d1 \<noteq> [] \<or> d2 \<noteq> [])")
    case True
    with assms shape have v: "exponent_digits r2 \<noteq> []" and n: "n = length d1 + length d2"
      and rest: "rest = exponent_rest r2" by (auto split: if_splits)
    from True obtain m sg where m: "is_e_or_E m" and sg: "optional_sign sg"
      and r2: "r2 = m # sg @ exponent_digits r2 @ rest"
      unfolding rest using exponent_split [of r2] by blast
    define ft where "ft = \<lparr>sign_text = [], int_digits = d1, has_point = pt, frac_digits = d2,
      exponent = Some (m, sg, exponent_digits r2)\<rparr>"
    have "well_formed ft"
      using True dig m sg v
      by (simp add: well_formed_def ft_def optional_sign_def exponent_digits_def list_all_takeWhile
          exponent_ok_def)
    moreover have "xs = render ft @ rest"
      using xs r1 r2 by (simp add: render_def ft_def exponent_text_def)
    ultimately show ?thesis using n by (intro exI [of _ ft]) (simp add: ft_def)
  next
    case False
    with assms shape have v: "d1 \<noteq> [] \<or> d2 \<noteq> []" and n: "n = length d1 + length d2"
      and rest: "rest = r2" by (auto split: if_splits)
    define ft where "ft = \<lparr>sign_text = [], int_digits = d1, has_point = pt, frac_digits = d2,
      exponent = None\<rparr>"
    have "well_formed ft"
      using dig v by (simp add: well_formed_def ft_def optional_sign_def exponent_ok_def)
    moreover have "xs = render ft @ rest"
      using xs r1 rest by (simp add: render_def ft_def exponent_text_def)
    ultimately show ?thesis using n by (intro exI [of _ ft]) (simp add: ft_def)
  qed
qed

lemma token_take:
  "token ys t \<Longrightarrow> length t = n \<Longrightarrow> map ascii_tolower (take n ys) = t"
  by (auto simp add: token_def)

lemma scan_shape_accepts:
  assumes "scan_shape xs = (True, rest)"
  shows "(\<exists>ft. well_formed ft \<and> xs = render ft @ rest \<and>
            of_nat (length (int_digits ft) + length (frac_digits ft)) < DBL_DIG) \<or>
         (\<exists>sg t. optional_sign sg \<and> special_token t \<and> xs = sg @ t @ rest)"
proof -
  define ys where "ys = skip_sign xs"
  obtain sg where sg: "optional_sign sg" and xs: "xs = sg @ ys"
    unfolding ys_def using skip_sign_split by blast
  define special where "special \<longleftrightarrow> starts is_n_or_N ys \<or> starts is_i_or_I ys"
  have sh: "scan_shape xs =
     (if special \<and> token ys ''inf'' then
        (True, if token (drop 3 ys) ''inity'' then drop 8 ys else drop 3 ys)
      else if special \<and> token ys ''nan'' then (True, drop 3 ys)
      else (case float_shape ys of (v, n, r) \<Rightarrow> (v \<and> of_nat n < DBL_DIG, r)))"
    by (simp add: scan_shape_def Let_def ys_def special_def)
  consider (inf) "special \<and> token ys ''inf''"
    | (nan) "\<not> (special \<and> token ys ''inf'')" "special \<and> token ys ''nan''"
    | (num) "\<not> (special \<and> token ys ''inf'')" "\<not> (special \<and> token ys ''nan'')"
    by blast
  then show ?thesis
  proof cases
    case inf
    show ?thesis
    proof (cases "token (drop 3 ys) ''inity''")
      case True
      with inf have "scan_shape xs = (True, drop 8 ys)" unfolding sh by auto
      with assms have rest: "rest = drop 8 ys" by simp
      have "map ascii_tolower (take 3 ys) = ''inf''"
        by (rule token_take) (use inf in simp_all)
      moreover have "map ascii_tolower (take 5 (drop 3 ys)) = ''inity''"
        by (rule token_take) (use True in simp_all)
      moreover have "take 8 ys = take 3 ys @ take 5 (drop 3 ys)"
        using take_add [of 3 5 ys] by simp
      ultimately have "map ascii_tolower (take 8 ys) = ''infinity''" by simp
      then have "special_token (take 8 ys)" by (simp add: special_token_def)
      moreover have "xs = sg @ take 8 ys @ rest" using xs rest by simp
      ultimately show ?thesis using sg by blast
    next
      case False
      with inf have "scan_shape xs = (True, drop 3 ys)" unfolding sh by auto
      with assms have rest: "rest = drop 3 ys" by simp
      have "map ascii_tolower (take 3 ys) = ''inf''"
        by (rule token_take) (use inf in simp_all)
      then have "special_token (take 3 ys)" by (simp add: special_token_def)
      moreover have "xs = sg @ take 3 ys @ rest" using xs rest by simp
      ultimately show ?thesis using sg by blast
    qed
  next
    case nan
    then have "scan_shape xs = (True, drop 3 ys)" unfolding sh by auto
    with assms have rest: "rest = drop 3 ys" by simp
    have "map ascii_tolower (take 3 ys) = ''nan''"
      by (rule token_take) (use nan in simp_all)
    then have "special_token (take 3 ys)" by (simp add: special_token_def)
    moreover have "xs = sg @ take 3 ys @ rest" using xs rest by simp
    ultimately show ?thesis using sg by blast
  next
    case num
    obtain v n r where fs: "float_shape ys = (v, n, r)" by (cases "float_shape ys") auto
    from num have "scan_shape xs = (v \<and> of_nat n < DBL_DIG, r)"
      unfolding sh by (auto simp add: fs)
    with assms have v: "v" and n: "of_nat n < DBL_DIG" and r: "r = rest" by simp_all
    from float_shape_render [of ys n rest] fs v r obtain ft where ft: "well_formed ft"
      "sign_text ft = []" "ys = render ft @ rest" "n = length (int_digits ft) + length (frac_digits ft)"
      by auto
    define ft' where "ft' = ft\<lparr>sign_text := sg\<rparr>"
    have "well_formed ft'" using ft(1) sg by (simp add: well_formed_def ft'_def)
    moreover have "xs = render ft' @ rest"
      using xs ft(2,3) by (simp add: render_def ft'_def)
    moreover have "of_nat (length (int_digits ft') + length (frac_digits ft')) < DBL_DIG"
      using n ft(4) by (simp add: ft'_def)
    ultimately show ?thesis by blast
  qed
qed

lemma render_nonempty: "well_formed ft \<Longrightarrow> render ft \<noteq> []"
  by (auto simp add: well_formed_def render_def)

lemma special_token_nonempty: "special_token t \<Longrightarrow> t \<noteq> []"
  by (auto simp add: special_token_def)

lemma accepted_literal:
  assumes "string_contains_non_overflowing_float buf p e = Some True"
  shows "p < e \<and> e \<le> length buf \<and>
         ((\<exists>ft. well_formed ft \<and> take (e - p) (drop p buf) = render ft \<and>
             of_nat (length (int_digits ft) + length (frac_digits ft)) < DBL_DIG) \<or>
          (\<exists>sg t. optional_sign sg \<and> special_token t \<and> take (e - p) (drop p buf) = sg @ t))"
proof -
  obtain ok rest where sh: "scan_shape (drop p buf) = (ok, rest)"
    by (cases "scan_shape (drop p buf)") auto
  with assms have ok: "ok" and adv: "advance buf p rest = e"
    by (simp_all add: scanner_closed)
  from scan_shape_accepts [of "drop p buf" rest] sh ok
  consider (num) ft where "well_formed ft" "drop p buf = render ft @ rest"
      "of_nat (length (int_digits ft) + length (frac_digits ft)) < DBL_DIG"
    | (tok) sg t where "optional_sign sg" "special_token t" "drop p buf = sg @ t @ rest"
    by auto
  then obtain w where w: "w \<noteq> []" "drop p buf = w @ rest"
    and lit: "(\<exists>ft. well_formed ft \<and> w = render ft \<and>
          of_nat (length (int_digits ft) + length (frac_digits ft)) < DBL_DIG) \<or>
       (\<exists>sg t. optional_sign sg \<and> special_token t \<and> w = sg @ t)"
  proof cases
    case num
    show ?thesis
      by (rule that [of "render ft"]) (use num render_nonempty in auto)
  next
    case tok
    show ?thesis
      by (rule that [of "sg @ t"]) (use tok special_token_nonempty in auto)
  qed
  from w have e: "e = p + length w" using adv by (simp add: advance_def)
  from w have "length w + length rest = length buf - p"
    by (metis length_append length_drop)
  with w(1) have "p + length w \<le> length buf" by (cases w) simp_all
  moreover have "take (e - p) (drop p buf) = w" using e w(2) by simp
  ultimately show ?thesis using e w(1) lit by simp
qed

subsection \<open>From the grammar to an accepted range\<close>

lemma digit_not_other:
  assumes "is_valid_digit c"
  shows "\<not> is_sign c" "\<not> is_decimal c" "\<not> is_e_or_E c" "\<not> is_n_or_N c" "\<not> is_i_or_I c"
  using assms
  by (auto simp add: is_valid_digit_def is_sign_def is_negative_sign_def is_positive_sign_def
      is_decimal_def is_e_or_E_def is_n_or_N_def is_i_or_I_def less_eq_char_def)

lemma marker_not_other:
  assumes "is_e_or_E c"
  shows "\<not> is_valid_digit c" "\<not> is_decimal c" "\<not> is_sign c" "\<not> is_n_or_N c" "\<not> is_i_or_I c"
  using assms
  by (auto simp add: is_valid_digit_def is_sign_def is_negative_sign_def is_positive_sign_def
      is_decimal_def is_e_or_E_def is_n_or_N_def is_i_or_I_def less_eq_char_def)

lemma point_not_other:
  "\<not> is_valid_digit CHR ''.''" "\<not> is_e_or_E CHR ''.''" "\<not> is_sign CHR ''.''"
  "\<not> is_n_or_N CHR ''.''" "\<not> is_i_or_I CHR ''.''" "is_decimal CHR ''.''"
  by (simp_all add: is_valid_digit_def is_sign_def is_negative_sign_def is_positive_sign_def
      is_decimal_def is_e_or_E_def is_n_or_N_def is_i_or_I_def)

lemma digits_then:
  assumes "list_all is_valid_digit ds" and "\<not> starts is_valid_digit tail"
  shows "takeWhile is_valid_digit (ds @ tail) = ds" and "dropWhile is_valid_digit (ds @ tail) = tail"
proof -
  have all: "\<And>c. c \<in> set ds \<Longrightarrow> is_valid_digit c"
    using assms(1) by (simp add: list_all_iff)
  have t: "takeWhile is_valid_digit tail = []" and d: "dropWhile is_valid_digit tail = tail"
    using assms(2) by (cases tail; simp)+
  show "takeWhile is_valid_digit (ds @ tail) = ds"
    using all by (simp add: takeWhile_append2 t)
  show "dropWhile is_valid_digit (ds @ tail) = tail"
    using all by (simp add: dropWhile_append2 d)
qed

lemma skip_sign_optional:
  assumes "optional_sign sg" and "\<not> starts is_sign body"
  shows "skip_sign (sg @ body) = body"
  using assms
  by (auto simp add: optional_sign_def skip_sign_def is_sign_def is_negative_sign_def
      is_positive_sign_def)

lemma exponent_text_shape:
  assumes "exponent_ok ex"
  shows "\<not> starts is_valid_digit (exponent_text ex)" "\<not> starts is_decimal (exponent_text ex)"
    "\<not> starts is_sign (exponent_text ex)" "\<not> starts is_n_or_N (exponent_text ex)"
    "\<not> starts is_i_or_I (exponent_text ex)"
    "starts is_e_or_E (exponent_text ex) \<longleftrightarrow> ex \<noteq> None"
    "ex \<noteq> None \<Longrightarrow> exponent_digits (exponent_text ex) \<noteq> []"
    "ex \<noteq> None \<Longrightarrow> exponent_rest (exponent_text ex) = []"
proof -
  show "\<not> starts is_valid_digit (exponent_text ex)" "\<not> starts is_decimal (exponent_text ex)"
    "\<not> starts is_sign (exponent_text ex)" "\<not> starts is_n_or_N (exponent_text ex)"
    "\<not> starts is_i_or_I (exponent_text ex)"
    "starts is_e_or_E (exponent_text ex) \<longleftrightarrow> ex \<noteq> None"
    using assms
    by (auto simp add: exponent_text_def exponent_ok_def marker_not_other split: option.splits)
  have some: "exponent_digits (m # sg @ ds) = ds \<and> exponent_rest (m # sg @ ds) = []"
    if "optional_sign sg" "ds \<noteq> []" "list_all is_valid_digit ds" for m sg ds
  proof -
    from that(2,3) have "\<not> starts is_sign ds"
      by (cases ds) (simp_all add: digit_not_other)
    with that(1) have sk: "skip_sign (sg @ ds) = ds" by (rule skip_sign_optional)
    have tw: "takeWhile is_valid_digit ds = ds" and dw: "dropWhile is_valid_digit ds = []"
      using digits_then [OF that(3), of "[]"] by simp_all
    show ?thesis
      by (simp add: exponent_digits_def exponent_rest_def sk tw dw)
  qed
  show "exponent_digits (exponent_text ex) \<noteq> []" "exponent_rest (exponent_text ex) = []"
    if "ex \<noteq> None"
  proof -
    from that obtain m sg ds where ex: "ex = Some (m, sg, ds)" by (cases ex) auto
    with assms have ok: "optional_sign sg" "ds \<noteq> []" "list_all is_valid_digit ds"
      by (simp_all add: exponent_ok_def)
    have t: "exponent_text ex = m # sg @ ds" by (simp add: ex exponent_text_def)
    show "exponent_digits (exponent_text ex) \<noteq> []" "exponent_rest (exponent_text ex) = []"
      unfolding t using some [OF ok] ok(2) by simp_all
  qed
qed

lemma float_shape_of_text:
  assumes d1: "list_all is_valid_digit d1" and d2: "list_all is_valid_digit d2"
    and pt: "pt \<or> d2 = []" and some: "d1 @ d2 \<noteq> []" and ex: "exponent_ok ex"
  shows "float_shape (d1 @ (if pt then CHR ''.'' # d2 else []) @ exponent_text ex) =
         (True, length d1 + length d2, [])"
proof -
  note e = exponent_text_shape [OF ex]
  define frac where "frac = (if pt then CHR ''.'' # d2 else []) @ exponent_text ex"
  have nd: "\<not> starts is_valid_digit frac"
    using e(1) by (simp add: frac_def point_not_other)
  have s1: "takeWhile is_valid_digit (d1 @ frac) = d1" "dropWhile is_valid_digit (d1 @ frac) = frac"
    using digits_then [OF d1 nd] by simp_all
  have s2: "fraction_digits frac = d2 \<and> fraction_rest frac = exponent_text ex"
  proof (cases pt)
    case True
    then show ?thesis
      using digits_then [OF d2 e(1)]
      by (simp add: frac_def fraction_digits_def fraction_rest_def point_not_other)
  next
    case False
    with pt have "d2 = []" by simp
    with False show ?thesis
      using e(2) by (simp add: frac_def fraction_digits_def fraction_rest_def)
  qed
  have v: "d1 \<noteq> [] \<or> d2 \<noteq> []" using some by simp
  have none: "exponent_text None = []" by (simp add: exponent_text_def)
  show ?thesis
    unfolding frac_def [symmetric] float_shape_def Let_def s1
    using s2 v e(6,7,8) none by (cases ex) auto
qed

lemma scan_shape_render:
  assumes "well_formed ft"
  shows "scan_shape (render ft) =
         (of_nat (length (int_digits ft) + length (frac_digits ft)) < DBL_DIG, [])"
proof -
  define body where "body = int_digits ft @ (if has_point ft then CHR ''.'' # frac_digits ft else []) @
    exponent_text (exponent ft)"
  have ex: "exponent_ok (exponent ft)"
    using assms by (simp add: well_formed_def)
  note e = exponent_text_shape [OF ex]
  have wf: "optional_sign (sign_text ft)" "list_all is_valid_digit (int_digits ft)"
    "list_all is_valid_digit (frac_digits ft)" "has_point ft \<or> frac_digits ft = []"
    "int_digits ft @ frac_digits ft \<noteq> []"
    using assms by (simp_all add: well_formed_def)
  have r: "render ft = sign_text ft @ body"
    by (simp add: render_def body_def)
  have hd: "\<not> starts is_sign body \<and> \<not> starts is_n_or_N body \<and> \<not> starts is_i_or_I body"
  proof (cases "int_digits ft")
    case Nil
    with wf(4,5) have "has_point ft" by auto
    with Nil show ?thesis by (simp add: body_def point_not_other)
  next
    case (Cons c cs)
    with wf(2) have "is_valid_digit c" by simp
    with Cons show ?thesis by (simp add: body_def digit_not_other)
  qed
  then have sk: "skip_sign (render ft) = body"
    unfolding r using skip_sign_optional [OF wf(1)] by simp
  have fs: "float_shape body = (True, length (int_digits ft) + length (frac_digits ft), [])"
    unfolding body_def by (rule float_shape_of_text [OF wf(2,3,4,5) ex])
  show ?thesis
    unfolding scan_shape_def Let_def sk using hd by (simp add: fs)
qed

lemma scanner_on_range:
  assumes "blank_or_white post"
  shows "string_contains_non_overflowing_float (pre @ w @ post) (length pre) e =
         Some (fst (scan_shape w) \<and> length pre + (length w - length (snd (scan_shape w))) = e)"
proof -
  obtain ok rest where sh: "scan_shape w = (ok, rest)" by (cases "scan_shape w") auto
  have sh': "scan_shape (w @ post) = (ok, rest @ post)"
    using scan_shape_before [OF assms, of w] sh by simp
  have "length rest \<le> length w" using scan_shape_rest_le [of w] sh by simp
  then have "advance (pre @ w @ post) (length pre) (rest @ post) = length pre + (length w - length rest)"
    by (simp add: advance_def)
  then show ?thesis by (simp add: scanner_closed sh sh')
qed

section \<open>The digit-count guard\<close>

lemma counted_below_DBL_DIG: "(of_nat n < DBL_DIG) = (n mod 2 ^ 32 < 15)"
  by (simp add: DBL_DIG_def word_less_nat_alt unat_of_nat take_bit_eq_mod)

text \<open>
  Claim C2 as stated fails in both directions.  The literal of sixteen digits has a value
  far inside the range of a double and is refused; the literal \<open>1e400\<close> has a value
  beyond the largest double and is accepted.
\<close>

theorem overflow_by_value_counterexample:
  "well_formed sixteen_digits \<and> \<bar>literal_value sixteen_digits\<bar> \<le> DBL_MAX \<and>
   string_contains_non_overflowing_float (render sixteen_digits) 0 (length (render sixteen_digits)) =
     Some False \<and>
   well_formed one_e400 \<and> DBL_MAX < \<bar>literal_value one_e400\<bar> \<and>
   string_contains_non_overflowing_float (render one_e400) 0 (length (render one_e400)) = Some True"
proof -
  have r16: "render sixteen_digits = ''1234567890123456''"
    by (simp add: render_def sixteen_digits_def exponent_text_def)
  have r400: "render one_e400 = ''1e400''"
    by (simp add: render_def one_e400_def exponent_text_def)
  have w16: "well_formed sixteen_digits"
    by (simp add: well_formed_def sixteen_digits_def optional_sign_def is_valid_digit_def exponent_ok_def)
  have w400: "well_formed one_e400"
    by (simp add: well_formed_def one_e400_def optional_sign_def is_valid_digit_def exponent_ok_def
        is_e_or_E_def)
  have v16: "\<bar>literal_value sixteen_digits\<bar> \<le> DBL_MAX"
    by (simp add: literal_value_def sixteen_digits_def digits_value_def ascii2uint_def DBL_MAX_def)
  have "literal_value one_e400 = 10 ^ 400"
    by (simp add: literal_value_def one_e400_def digits_value_def ascii2uint_def)
  moreover have "(2::real) ^ 1024 \<le> 2 ^ 1200" by (rule power_increasing) simp_all
  moreover have "(2::real) ^ 1200 = 8 ^ 400"
    using power_mult [of "2::real" 3 400] by simp
  moreover have "(8::real) ^ 400 \<le> 10 ^ 400" by (rule power_mono) simp_all
  moreover have "DBL_MAX < 2 ^ 1024" by (simp add: DBL_MAX_def)
  ultimately have v400: "DBL_MAX < \<bar>literal_value one_e400\<bar>" by simp
  have s16: "string_contains_non_overflowing_float ''1234567890123456'' 0 16 = Some False"
    by code_simp
  have s400: "string_contains_non_overflowing_float ''1e400'' 0 5 = Some True"
    by code_simp
  have l16: "length ''1234567890123456'' = 16" and l400: "length ''1e400'' = 5" by simp_all
  show ?thesis
    unfolding r16 r400 l16 l400 using w16 w400 v16 v400 s16 s400 by blast
qed

text \<open>
  Claim C2, amended.  For a well-formed float literal standing in a stripped range, the
  scanner returns true exactly when the digits of the integer part and of the fraction,
  counted in the 32-bit unsigned counter, are fewer than \<open>DBL_DIG = 15\<close>.  The exponent
  and the value of the literal play no part.
\<close>

theorem non_overflowing_float_counts_digits:
  assumes "well_formed ft" and "blank_or_white post"
  shows "string_contains_non_overflowing_float (pre @ render ft @ post) (length pre)
           (length pre + length (render ft)) =
         Some ((length (int_digits ft) + length (frac_digits ft)) mod 2 ^ 32 < 15)"
proof -
  have "string_contains_non_overflowing_float (pre @ render ft @ post) (length pre)
           (length pre + length (render ft)) =
         Some (of_nat (length (int_digits ft) + length (frac_digits ft)) < DBL_DIG)"
    unfolding scanner_on_range [OF assms(2)] scan_shape_render [OF assms(1)]
    by (simp del: of_nat_add)
  then show ?thesis by (simp only: counted_below_DBL_DIG)
qed

theorem non_overflowing_float_counts_digits_witness:
  "string_contains_non_overflowing_float (''  '' @ ''1e400'' @ ''  '') (length ''  '')
     (length ''  '' + length ''1e400'') = Some True \<and>
   string_contains_non_overflowing_float ([] @ ''1234567890123456'' @ []) (length [])
     (length [] + length ''1234567890123456'') = Some False"
proof -
  have r16: "render sixteen_digits = ''1234567890123456''"
    by (simp add: render_def sixteen_digits_def exponent_text_def)
  have r400: "render one_e400 = ''1e400''"
    by (simp add: render_def one_e400_def exponent_text_def)
  have w16: "well_formed sixteen_digits"
    by (simp add: well_formed_def sixteen_digits_def optional_sign_def is_valid_digit_def exponent_ok_def)
  have w400: "well_formed one_e400"
    by (simp add: well_formed_def one_e400_def optional_sign_def is_valid_digit_def exponent_ok_def
        is_e_or_E_def)
  have b: "blank_or_white ''  ''" "blank_or_white []"
    by (simp_all add: blank_or_white_def is_white_space_def)
  have n: "(length (int_digits one_e400) + length (frac_digits one_e400)) mod 2 ^ 32 < 15"
    "\<not> (length (int_digits sixteen_digits) + length (frac_digits sixteen_digits)) mod 2 ^ 32 < 15"
    by (simp_all add: one_e400_def sixteen_digits_def)
  show ?thesis
    using non_overflowing_float_counts_digits [OF w400 b(1), of "''  ''"]
      non_overflowing_float_counts_digits [OF w16 b(2), of "[]"] n
    unfolding r16 r400 by simp
qed

section \<open>Special tokens\<close>

lemma token_lower: "length s = n \<Longrightarrow> token t s \<longleftrightarrow> take n (map ascii_tolower t) = s"
  by (auto simp add: token_def take_map)

lemma special_token_starts:
  assumes "special_token t"
  shows "starts is_n_or_N t \<or> starts is_i_or_I t"
proof -
  from assms obtain c cs where t: "t = c # cs" by (cases t) (auto simp add: special_token_def)
  with assms have "ascii_tolower c = CHR ''i'' \<or> ascii_tolower c = CHR ''n''"
    by (auto simp add: special_token_def)
  then show ?thesis
    by (auto simp add: t tolower_letter is_n_or_N_def is_i_or_I_def)
qed

lemma float_shape_no_digit:
  assumes "\<not> starts is_valid_digit t" and "\<not> starts is_decimal t"
  shows "fst (float_shape t) = False"
proof -
  have "takeWhile is_valid_digit t = []" "dropWhile is_valid_digit t = t"
    using assms(1) by (cases t; simp)+
  then show ?thesis
    using assms(2) by (simp add: float_shape_def Let_def fraction_digits_def fraction_rest_def)
qed

lemma float_shape_letter:
  assumes "starts is_n_or_N t \<or> starts is_i_or_I t"
  shows "fst (float_shape t) = False"
proof -
  from assms obtain c cs where t: "t = c # cs" and c: "is_n_or_N c \<or> is_i_or_I c"
    by (cases t) auto
  then have "\<not> is_valid_digit c" "\<not> is_decimal c"
    by (auto simp add: is_n_or_N_def is_i_or_I_def is_valid_digit_def is_decimal_def
        less_eq_char_def)
  then show ?thesis
    by (intro float_shape_no_digit) (simp_all add: t)
qed

lemma float_shape_sign:
  assumes "starts is_sign t"
  shows "fst (float_shape t) = False"
proof -
  from assms obtain c cs where t: "t = c # cs" and c: "is_sign c"
    by (cases t) auto
  then have "\<not> is_valid_digit c" "\<not> is_decimal c"
    by (auto simp add: is_sign_def is_negative_sign_def is_positive_sign_def is_valid_digit_def
        is_decimal_def less_eq_char_def)
  then show ?thesis
    by (intro float_shape_no_digit) (simp_all add: t)
qed

lemma sign_not_letter: "starts is_sign t \<Longrightarrow> \<not> (starts is_n_or_N t \<or> starts is_i_or_I t)"
  by (cases t) (auto simp add: is_n_or_N_def is_i_or_I_def is_sign_def is_negative_sign_def
      is_positive_sign_def)

lemma scan_shape_second_sign:
  assumes "optional_sign sg" and "sg \<noteq> []" and "starts is_sign t"
  shows "fst (scan_shape (sg @ t)) = False"
proof -
  from assms(1,2) obtain c where sg: "sg = [c]" and c: "is_sign c"
    by (auto simp add: optional_sign_def is_sign_def is_negative_sign_def is_positive_sign_def)
  then have sk: "skip_sign (sg @ t) = t" by (simp add: skip_sign_def)
  obtain v n r where fs: "float_shape t = (v, n, r)" by (cases "float_shape t") auto
  with float_shape_sign [OF assms(3)] have "\<not> v" by simp
  then show ?thesis
    unfolding scan_shape_def Let_def sk
    using sign_not_letter [OF assms(3)] by (simp add: fs)
qed

lemma scanner_whole_range:
  assumes "blank_or_white post"
  shows "string_contains_non_overflowing_float (pre @ w @ post) (length pre) (length pre + length w) =
         Some (fst (scan_shape w) \<and> snd (scan_shape w) = [])"
proof -
  have "length (snd (scan_shape w)) \<le> length w" by (rule scan_shape_rest_le)
  then have "length w - length (snd (scan_shape w)) = length w \<longleftrightarrow> snd (scan_shape w) = []"
    by (cases "snd (scan_shape w)") auto
  then show ?thesis
    by (simp add: scanner_on_range [OF assms])
qed

lemma letter_not_sign: "starts is_n_or_N t \<or> starts is_i_or_I t \<Longrightarrow> \<not> starts is_sign t"
  by (cases t) (auto simp add: is_n_or_N_def is_i_or_I_def is_sign_def is_negative_sign_def
      is_positive_sign_def)

lemma scan_shape_letter:
  assumes "optional_sign sg" and "starts is_n_or_N t \<or> starts is_i_or_I t"
  shows "(fst (scan_shape (sg @ t)) \<and> snd (scan_shape (sg @ t)) = []) = special_token t"
proof -
  define L where "L = map ascii_tolower t"
  have len: "length L = length t" by (simp add: L_def)
  have sk: "skip_sign (sg @ t) = t"
    using assms(1) letter_not_sign [OF assms(2)] by (rule skip_sign_optional)
  have sp: "special_token t \<longleftrightarrow> L = ''inf'' \<or> L = ''infinity'' \<or> L = ''nan''"
    by (simp add: special_token_def L_def)
  have d: "drop n t = [] \<longleftrightarrow> length L \<le> n" for n by (simp add: len)
  have inf3: "take 3 L = ''inf'' \<Longrightarrow> length L \<le> 3 \<Longrightarrow> L = ''inf''" by simp
  have nan3: "take 3 L = ''nan'' \<Longrightarrow> length L \<le> 3 \<Longrightarrow> L = ''nan''" by simp
  have inf8: "L = ''infinity''" if "take 3 L = ''inf''" "take 5 (drop 3 L) = ''inity''" "length L \<le> 8"
  proof -
    have "length (drop 3 L) \<le> 5" using that(3) by simp
    then have "take 5 (drop 3 L) = drop 3 L" by (rule take_all)
    then have "L = take 3 L @ take 5 (drop 3 L)" by simp
    then show ?thesis by (simp only: that(1,2) append.simps)
  qed
  define A where "A \<longleftrightarrow> take 3 L = ''inf''"
  define B where "B \<longleftrightarrow> take 5 (drop 3 L) = ''inity''"
  define N where "N \<longleftrightarrow> take 3 L = ''nan''"
  have vals: "L = ''inf'' \<Longrightarrow> A \<and> \<not> B \<and> length L \<le> 3"
    "L = ''infinity'' \<Longrightarrow> A \<and> B \<and> length L \<le> 8"
    "L = ''nan'' \<Longrightarrow> \<not> A \<and> N \<and> length L \<le> 3"
    by (simp_all add: A_def B_def N_def)
  have f1: "A \<Longrightarrow> B \<Longrightarrow> length L \<le> 8 \<Longrightarrow> L = ''infinity''"
    unfolding A_def B_def by (rule inf8)
  have f2: "A \<Longrightarrow> length L \<le> 3 \<Longrightarrow> L = ''inf''"
    unfolding A_def by (rule inf3)
  have f3: "N \<Longrightarrow> length L \<le> 3 \<Longrightarrow> L = ''nan''"
    unfolding N_def by (rule nan3)
  obtain v n r where fs: "float_shape t = (v, n, r)" by (cases "float_shape t") auto
  with float_shape_letter [OF assms(2)] have v: "\<not> v" by simp
  have "token t ''inf'' = A"
    unfolding A_def L_def by (rule token_lower) simp
  moreover have "token t ''nan'' = N"
    unfolding N_def L_def by (rule token_lower) simp
  moreover have "token (drop 3 t) ''inity'' = B"
    unfolding B_def L_def drop_map by (rule token_lower) simp
  ultimately have tks: "token t ''inf'' = A" "token t ''nan'' = N" "token (drop 3 t) ''inity'' = B"
    by blast+
  have sh: "scan_shape (sg @ t) =
      (if A then (True, if B then drop 8 t else drop 3 t)
       else if N then (True, drop 3 t) else (False, r))"
    unfolding scan_shape_def Let_def sk tks
    using assms(2) v by (simp add: fs)
  let ?lhs = "fst (scan_shape (sg @ t)) \<and> snd (scan_shape (sg @ t)) = []"
  show ?thesis
  proof (cases A)
    case True
    show ?thesis
    proof (cases B)
      case b: True
      have "?lhs \<longleftrightarrow> length L \<le> 8" using True b by (simp add: sh len)
      then show ?thesis unfolding sp using f1 vals True b by blast
    next
      case b: False
      have "?lhs \<longleftrightarrow> length L \<le> 3" using True b by (simp add: sh len)
      then show ?thesis unfolding sp using f2 vals True b by blast
    qed
  next
    case False
    show ?thesis
    proof (cases N)
      case n: True
      have "?lhs \<longleftrightarrow> length L \<le> 3" using False n by (simp add: sh len)
      then show ?thesis unfolding sp using f3 vals False n by blast
    next
      case n: False
      have "\<not> ?lhs" using False n by (simp add: sh)
      then show ?thesis unfolding sp using vals False n by blast
    qed
  qed
qed

text \<open>
  Claim C4.  In a stripped range that holds an optional sign \<open>sg\<close> and a remainder \<open>t\<close>:
  a remainder equal to "inf", "infinity" or "nan" up to letter case is accepted; a
  remainder that starts with one of the letters n, N, i, I is accepted exactly when it is
  one of these tokens, so neither a truncation nor an extension of a token is; and a
  second sign behind the first makes the scanner refuse the range.
\<close>

theorem special_tokens_recognised:
  assumes "optional_sign sg" and "blank_or_white post"
  shows "(special_token t \<longrightarrow>
            string_contains_non_overflowing_float (pre @ (sg @ t) @ post) (length pre)
              (length pre + length (sg @ t)) = Some True) \<and>
         (starts is_n_or_N t \<or> starts is_i_or_I t \<longrightarrow>
            string_contains_non_overflowing_float (pre @ (sg @ t) @ post) (length pre)
              (length pre + length (sg @ t)) = Some (special_token t)) \<and>
         (sg \<noteq> [] \<and> starts is_sign t \<longrightarrow>
            string_contains_non_overflowing_float (pre @ (sg @ t) @ post) (length pre)
              (length pre + length (sg @ t)) = Some False)"
proof (intro conjI impI)
  assume "special_token t"
  then show "string_contains_non_overflowing_float (pre @ (sg @ t) @ post) (length pre)
      (length pre + length (sg @ t)) = Some True"
    using scan_shape_letter [OF assms(1) special_token_starts]
    by (simp only: scanner_whole_range [OF assms(2)])
next
  assume "starts is_n_or_N t \<or> starts is_i_or_I t"
  then show "string_contains_non_overflowing_float (pre @ (sg @ t) @ post) (length pre)
      (length pre + length (sg @ t)) = Some (special_token t)"
    using scan_shape_letter [OF assms(1)]
    by (simp only: scanner_whole_range [OF assms(2)])
next
  assume "sg \<noteq> [] \<and> starts is_sign t"
  then show "string_contains_non_overflowing_float (pre @ (sg @ t) @ post) (length pre)
      (length pre + length (sg @ t)) = Some False"
    using scan_shape_second_sign [OF assms(1), of t]
    by (simp only: scanner_whole_range [OF assms(2)]) simp
qed

theorem special_tokens_recognised_witness:
  "string_contains_non_overflowing_float ('' '' @ (''-'' @ ''Infinity'') @ '' '') (length '' '')
     (length '' '' + length (''-'' @ ''Infinity'')) = Some True \<and>
   string_contains_non_overflowing_float ([] @ ([] @ ''NaN'') @ []) (length [])
     (length [] + length ([] @ ''NaN'')) = Some True \<and>
   string_contains_non_overflowing_float ([] @ ([] @ ''infin'') @ []) (length [])
     (length [] + length ([] @ ''infin'')) = Some False \<and>
   string_contains_non_overflowing_float ([] @ (''+'' @ ''-inf'') @ []) (length [])
     (length [] + length (''+'' @ ''-inf'')) = Some False"
proof -
  have t: "special_token ''Infinity''" "special_token ''NaN''" "\<not> special_token ''infin''"
    by code_simp+
  have o: "optional_sign ''-''" "optional_sign []" "optional_sign ''+''"
    by (simp_all add: optional_sign_def)
  have b: "blank_or_white '' ''" "blank_or_white []"
    by (simp_all add: blank_or_white_def is_white_space_def)
  have h: "starts is_n_or_N ''infin'' \<or> starts is_i_or_I ''infin''" "''+'' \<noteq> [] \<and> starts is_sign ''-inf''"
    by (simp_all add: is_i_or_I_def is_sign_def is_negative_sign_def)
  note i1 = special_tokens_recognised [OF o(1) b(1), of "''Infinity''" "'' ''"]
  note i2 = special_tokens_recognised [OF o(2) b(2), of "''NaN''" "[]"]
  note i3 = special_tokens_recognised [OF o(2) b(2), of "''infin''" "[]"]
  note i4 = special_tokens_recognised [OF o(3) b(2), of "''-inf''" "[]"]
  note r1 = i1 [THEN conjunct1, THEN mp, OF t(1)]
  note r2 = i2 [THEN conjunct1, THEN mp, OF t(2)]
  note r3 = i3 [THEN conjunct2, THEN conjunct1, THEN mp, OF h(1)]
  note r4 = i4 [THEN conjunct2, THEN conjunct2, THEN mp, OF h(2)]
  from r1 r2 r3 r4 t(3) show ?thesis by simp
qed

section \<open>Accepted ranges\<close>

lemma sign_not_other:
  assumes "is_sign c"
  shows "\<not> is_valid_digit c" "\<not> is_decimal c" "\<not> is_e_or_E c"
  using assms
  by (auto simp add: is_valid_digit_def is_sign_def is_negative_sign_def is_positive_sign_def
      is_decimal_def is_e_or_E_def less_eq_char_def)

lemma optional_sign_chars: "optional_sign sg \<Longrightarrow> c \<in> set sg \<Longrightarrow> is_sign c"
  by (auto simp add: optional_sign_def is_sign_def is_negative_sign_def is_positive_sign_def)

lemma exponent_chars:
  assumes "exponent_ok ex" and "c \<in> set (exponent_text ex)"
  shows "is_e_or_E c \<or> is_sign c \<or> is_valid_digit c"
  using assms optional_sign_chars
  by (auto simp add: exponent_ok_def exponent_text_def list_all_iff split: option.splits)

lemma render_chars:
  assumes "well_formed ft" and "c \<in> set (render ft)"
  shows "is_valid_digit c \<or> is_sign c \<or> is_decimal c \<or> is_e_or_E c"
proof -
  from assms(2) consider "c \<in> set (sign_text ft)" | "c \<in> set (int_digits ft)"
    | "c = CHR ''.''" | "c \<in> set (frac_digits ft)" | "c \<in> set (exponent_text (exponent ft))"
    by (auto simp add: render_def split: if_splits)
  then show ?thesis
  proof cases
    case 1
    with assms(1) show ?thesis using optional_sign_chars by (auto simp add: well_formed_def)
  next
    case 2
    with assms(1) show ?thesis by (auto simp add: well_formed_def list_all_iff)
  next
    case 3
    then show ?thesis by (simp add: is_decimal_def)
  next
    case 4
    with assms(1) show ?thesis by (auto simp add: well_formed_def list_all_iff)
  next
    case 5
    with assms(1) show ?thesis using exponent_chars by (auto simp add: well_formed_def)
  qed
qed

lemma special_token_letters:
  assumes "special_token t" and "c \<in> set t"
  shows "ascii_tolower c \<in> set ''infinity'' \<union> set ''nan''"
    and "\<not> is_decimal c" and "\<not> is_e_or_E c"
proof -
  from assms(1) obtain l where l: "map ascii_tolower t = l" "set l \<subseteq> set ''infinity'' \<union> set ''nan''"
    by (auto simp add: special_token_def)
  from l(1) assms(2) have "ascii_tolower c \<in> set l" by auto
  with l(2) show "ascii_tolower c \<in> set ''infinity'' \<union> set ''nan''" by blast
  show "\<not> is_decimal c" "\<not> is_e_or_E c"
    using token_letters [OF l assms(2)] by simp_all
qed

lemma numeric_not_white: "numeric_character c \<Longrightarrow> \<not> is_white_space c"
proof
  assume n: "numeric_character c" and w: "is_white_space c"
  from w have "\<not> is_valid_digit c" "\<not> is_sign c" "\<not> is_decimal c" "\<not> is_e_or_E c"
    "ascii_tolower c = c"
    by (rule white_space_inert)+
  with n have "c \<in> set ''infinity'' \<union> set ''nan''" by (simp add: numeric_character_def)
  with white_space_not_letter [OF w] show False by blast
qed

lemma accepted_chars:
  assumes "string_contains_non_overflowing_float buf p e = Some True"
    and "c \<in> set (take (e - p) (drop p buf))"
  shows "numeric_character c"
proof -
  from accepted_literal [OF assms(1)]
  consider (num) ft where "well_formed ft" "take (e - p) (drop p buf) = render ft"
    | (tok) sg t where "optional_sign sg" "special_token t" "take (e - p) (drop p buf) = sg @ t"
    by blast
  then show ?thesis
  proof cases
    case num
    with assms(2) render_chars [of ft c] show ?thesis
      by (auto simp add: numeric_character_def)
  next
    case tok
    with assms(2) have "c \<in> set sg \<or> c \<in> set t" by simp
    with tok optional_sign_chars [of sg c] special_token_letters(1) [of t c] show ?thesis
      unfolding numeric_character_def by blast
  qed
qed

subsection \<open>The grammar as a test and the grammar in parts\<close>

lemma set_splits: "set (splits w) = {(a, b). a @ b = w}"
proof (intro set_eqI iffI)
  fix x assume "x \<in> set (splits w)"
  then show "x \<in> {(a, b). a @ b = w}" by (auto simp add: splits_def)
next
  fix x assume "x \<in> {(a, b). a @ b = w}"
  then obtain a b where x: "x = (a, b)" and w: "w = a @ b" by auto
  have "(take (length a) w, drop (length a) w) \<in> set (splits w)"
    unfolding splits_def set_map by (rule imageI) (simp add: w)
  then show "x \<in> set (splits w)" by (simp add: x w)
qed

lemma list_ex_splits: "list_ex P (splits w) \<longleftrightarrow> (\<exists>a b. a @ b = w \<and> P (a, b))"
  by (auto simp add: list_ex_iff set_splits)

lemma mantissa_text_iff:
  "mantissa_text m \<longleftrightarrow>
     (\<exists>d1 pt d2. list_all is_valid_digit d1 \<and> list_all is_valid_digit d2 \<and> (pt \<or> d2 = []) \<and>
        d1 @ d2 \<noteq> [] \<and> m = d1 @ (if pt then CHR ''.'' # d2 else []))"
  (is "?l \<longleftrightarrow> ?r")
proof
  assume ?l
  then obtain ds fr where m: "m = ds @ fr" and ds: "list_all is_valid_digit ds"
    and fr: "fr = [] \<or> starts is_decimal fr \<and> list_all is_valid_digit (tl fr)"
    and some: "ds @ tl fr \<noteq> []"
    by (auto simp add: mantissa_text_def list_ex_splits)
  show ?r
  proof (cases fr)
    case Nil
    with m ds some show ?thesis
      by (intro exI [of _ ds] exI [of _ False] exI [of _ "[]"]) simp
  next
    case (Cons c cs)
    with fr have "c = CHR ''.''" "list_all is_valid_digit cs" by (simp_all add: is_decimal_def)
    with Cons m ds some show ?thesis
      by (intro exI [of _ ds] exI [of _ True] exI [of _ cs]) simp
  qed
next
  assume ?r
  then obtain d1 pt d2 where d: "list_all is_valid_digit d1" "list_all is_valid_digit d2"
    "pt \<or> d2 = []" "d1 @ d2 \<noteq> []" and m: "m = d1 @ (if pt then CHR ''.'' # d2 else [])"
    by blast
  have "\<exists>a b. a @ b = m \<and> list_all is_valid_digit a \<and>
      (b = [] \<or> starts is_decimal b \<and> list_all is_valid_digit (tl b)) \<and> a @ tl b \<noteq> []"
    using d by (intro exI [of _ d1] exI [of _ "if pt then CHR ''.'' # d2 else []"])
      (auto simp add: m is_decimal_def)
  then show ?l by (simp add: mantissa_text_def list_ex_splits)
qed

lemma exponent_part_iff: "exponent_part x \<longleftrightarrow> (\<exists>ex. exponent_ok ex \<and> x = exponent_text ex)"
  (is "?l \<longleftrightarrow> ?r")
proof
  assume l: ?l
  show ?r
  proof (cases x)
    case Nil
    then show ?thesis
      by (intro exI [of _ None]) (simp add: exponent_ok_def exponent_text_def)
  next
    case (Cons m cs)
    with l obtain sg ds where "is_e_or_E m" "cs = sg @ ds" "optional_sign sg" "ds \<noteq> []"
      "list_all is_valid_digit ds"
      by (auto simp add: exponent_part_def list_ex_splits)
    with Cons show ?thesis
      by (intro exI [of _ "Some (m, sg, ds)"]) (simp add: exponent_ok_def exponent_text_def)
  qed
next
  assume ?r
  then obtain ex where ok: "exponent_ok ex" and x: "x = exponent_text ex" by blast
  show ?l
  proof (cases ex)
    case None
    with x show ?thesis by (simp add: exponent_part_def exponent_text_def)
  next
    case (Some t)
    obtain m sg ds where t: "t = (m, sg, ds)" by (cases t)
    from ok Some t have "is_e_or_E m" "optional_sign sg" "ds \<noteq> []" "list_all is_valid_digit ds"
      by (simp_all add: exponent_ok_def)
    then show ?thesis
      by (auto simp add: exponent_part_def list_ex_splits x Some t exponent_text_def)
  qed
qed

lemma float_literal_iff: "float_literal w \<longleftrightarrow> (\<exists>ft. well_formed ft \<and> w = render ft)"
  (is "?l \<longleftrightarrow> ?r")
proof
  assume ?l
  then obtain sg m x where w: "w = sg @ m @ x" and sg: "optional_sign sg"
    and m: "mantissa_text m" and x: "exponent_part x"
    by (auto simp add: float_literal_def list_ex_splits)
  from m obtain d1 pt d2 where d: "list_all is_valid_digit d1" "list_all is_valid_digit d2"
    "pt \<or> d2 = []" "d1 @ d2 \<noteq> []" and m': "m = d1 @ (if pt then CHR ''.'' # d2 else [])"
    unfolding mantissa_text_iff by blast
  from x obtain ex where ex: "exponent_ok ex" "x = exponent_text ex"
    unfolding exponent_part_iff by blast
  define ft where "ft = \<lparr>sign_text = sg, int_digits = d1, has_point = pt, frac_digits = d2,
    exponent = ex\<rparr>"
  have "well_formed ft" using sg d ex(1) by (simp add: well_formed_def ft_def)
  moreover have "w = render ft" by (simp add: w m' ex(2) render_def ft_def)
  ultimately show ?r by blast
next
  assume ?r
  then obtain ft where wf: "well_formed ft" and w: "w = render ft" by blast
  define m where "m = int_digits ft @ (if has_point ft then CHR ''.'' # frac_digits ft else [])"
  have "mantissa_text m"
    unfolding mantissa_text_iff m_def using wf
    by (intro exI [of _ "int_digits ft"] exI [of _ "has_point ft"] exI [of _ "frac_digits ft"])
      (simp add: well_formed_def)
  moreover have "exponent_part (exponent_text (exponent ft))"
    unfolding exponent_part_iff using wf by (auto simp add: well_formed_def)
  moreover have "w = sign_text ft @ m @ exponent_text (exponent ft)"
    by (simp add: w render_def m_def)
  moreover have "optional_sign (sign_text ft)" using wf by (simp add: well_formed_def)
  ultimately show ?l
    unfolding float_literal_def list_ex_splits by (simp add: list_ex_splits) blast
qed

lemma special_literal_iff:
  "special_literal w \<longleftrightarrow> (\<exists>sg t. optional_sign sg \<and> special_token t \<and> w = sg @ t)"
  by (auto simp add: special_literal_def list_ex_splits)

lemma literal_iff:
  "literal w \<longleftrightarrow>
     (\<exists>ft. well_formed ft \<and> w = render ft) \<or>
     (\<exists>sg t. optional_sign sg \<and> special_token t \<and> w = sg @ t)"
  by (simp add: literal_def float_literal_iff special_literal_iff)

text \<open>
  Claim C1.  When the scanner accepts a range, the range is not empty and lies inside
  the buffer, the characters of the range are a literal of the grammar as a whole (an
  optional sign and a special token, or an optional sign, a mantissa and an exponent
  part), every character in it is one the scanner consumes and none is white space, and
  no other end of range is accepted from the same start: the match the scanner finds
  must end exactly where the range ends.  So a range that is not a literal as a whole,
  such as a literal followed by further characters, is refused, and so is a range with
  a white-space character in it.
\<close>

theorem accepted_range_is_consumed:
  "(string_contains_non_overflowing_float buf p e = Some True \<longrightarrow>
      p < e \<and> e \<le> length buf \<and>
      literal (take (e - p) (drop p buf)) \<and>
      (\<forall>i. p \<le> i \<and> i < e \<longrightarrow> numeric_character (buf ! i) \<and> \<not> is_white_space (buf ! i)) \<and>
      (\<forall>e'. e' \<noteq> e \<longrightarrow> string_contains_non_overflowing_float buf p e' = Some False)) \<and>
   (\<not> literal (take (e - p) (drop p buf)) \<longrightarrow>
      string_contains_non_overflowing_float buf p e = Some False) \<and>
   ((\<exists>i. p \<le> i \<and> i < e \<and> is_white_space (peek buf i)) \<longrightarrow>
      string_contains_non_overflowing_float buf p e = Some False)"
proof -
  have total: "string_contains_non_overflowing_float buf p e = Some False"
    if "string_contains_non_overflowing_float buf p e \<noteq> Some True" for e
    using that by (auto simp add: scanner_closed split: prod.splits)
  have lit: "literal (take (e - p) (drop p buf))"
    if a: "string_contains_non_overflowing_float buf p e = Some True" for e
    using accepted_literal [OF a] unfolding literal_iff by blast
  have acc: "p < e \<and> e \<le> length buf \<and>
      (\<forall>i. p \<le> i \<and> i < e \<longrightarrow> numeric_character (buf ! i) \<and> \<not> is_white_space (buf ! i)) \<and>
      (\<forall>e'. e' \<noteq> e \<longrightarrow> string_contains_non_overflowing_float buf p e' = Some False)"
    if a: "string_contains_non_overflowing_float buf p e = Some True" for e
  proof (intro conjI allI impI)
    from accepted_literal [OF a] show pe: "p < e" and el: "e \<le> length buf" by simp_all
    fix i assume i: "p \<le> i \<and> i < e"
    then have lt: "i - p < e - p" by arith
    then have "take (e - p) (drop p buf) ! (i - p) = drop p buf ! (i - p)" by (rule nth_take)
    also have "\<dots> = buf ! (p + (i - p))" by (rule nth_drop) (use i el in arith)
    also have "\<dots> = buf ! i" using i by simp
    finally have "take (e - p) (drop p buf) ! (i - p) = buf ! i" .
    moreover from lt el have "i - p < length (take (e - p) (drop p buf))" by simp
    ultimately have "buf ! i \<in> set (take (e - p) (drop p buf))"
      by (metis nth_mem)
    then show "numeric_character (buf ! i)" by (rule accepted_chars [OF a])
    then show "\<not> is_white_space (buf ! i)" by (rule numeric_not_white)
  next
    fix e' assume "e' \<noteq> e"
    with a show "string_contains_non_overflowing_float buf p e' = Some False"
      by (auto simp add: scanner_closed split: prod.splits)
  qed
  have nolit: "string_contains_non_overflowing_float buf p e = Some False"
    if "\<not> literal (take (e - p) (drop p buf))"
    using that lit [of e] total [of e] by blast
  have rej: "string_contains_non_overflowing_float buf p e = Some False"
    if w: "\<exists>i. p \<le> i \<and> i < e \<and> is_white_space (peek buf i)"
  proof (rule ccontr)
    assume "string_contains_non_overflowing_float buf p e \<noteq> Some False"
    with total [of e] have a: "string_contains_non_overflowing_float buf p e = Some True"
      by blast
    from w obtain i where i: "p \<le> i" "i < e" "is_white_space (peek buf i)" by blast
    from acc [OF a] i(1,2) have "i < length buf" "\<not> is_white_space (buf ! i)" by simp_all
    with i(3) show False by (simp add: peek_def)
  qed
  from acc lit nolit rej show ?thesis by blast
qed

theorem accepted_range_is_consumed_witness:
  "string_contains_non_overflowing_float ''12.5e3 x'' 0 6 = Some True \<and>
   literal ''12.5e3'' \<and>
   string_contains_non_overflowing_float ''12.5e3 x'' 0 8 = Some False \<and>
   string_contains_non_overflowing_float ''12a'' 0 3 = Some False \<and>
   string_contains_non_overflowing_float ''1.2.3'' 0 5 = Some False \<and>
   string_contains_non_overflowing_float ''1e+'' 0 3 = Some False \<and>
   string_contains_non_overflowing_float ''1 2'' 0 3 = Some False"
proof -
  have a: "string_contains_non_overflowing_float ''12.5e3 x'' 0 6 = Some True" by code_simp
  have w: "\<exists>i. 0 \<le> i \<and> i < 3 \<and> is_white_space (peek ''1 2'' i)"
    by (intro exI [of _ 1]) (simp add: peek_def is_white_space_def)
  have n1: "\<not> literal ''12a''" by code_simp
  have n2: "\<not> literal ''1.2.3''" by code_simp
  have n3: "\<not> literal ''1e+''" by code_simp
  from accepted_range_is_consumed [of "''12.5e3 x''" 0 6] a
  have "literal ''12.5e3''"
    and "string_contains_non_overflowing_float ''12.5e3 x'' 0 8 = Some False" by simp_all
  moreover from accepted_range_is_consumed [of "''12a''" 0 3] n1
  have "string_contains_non_overflowing_float ''12a'' 0 3 = Some False" by simp
  moreover from accepted_range_is_consumed [of "''1.2.3''" 0 5] n2
  have "string_contains_non_overflowing_float ''1.2.3'' 0 5 = Some False" by simp
  moreover from accepted_range_is_consumed [of "''1e+''" 0 3] n3
  have "string_contains_non_overflowing_float ''1e+'' 0 3 = Some False" by simp
  moreover from accepted_range_is_consumed [of "''1 2''" 0 3] w
  have "string_contains_non_overflowing_float ''1 2'' 0 3 = Some False" by blast
  ultimately show ?thesis using a by simp
qed

section \<open>Exponent markers and decimal points\<close>

lemma split_unique:
  assumes "u @ m # v = a @ m' # b" and "P m"
    and "\<forall>c\<in>set a. \<not> P c" and "\<forall>c\<in>set b. \<not> P c"
  shows "u = a \<and> m = m' \<and> v = b"
  using assms(1,3)
proof (induction u arbitrary: a)
  case Nil
  show ?case
  proof (cases a)
    case Nil
    with Nil.prems show ?thesis by simp
  next
    case (Cons x xs)
    with Nil.prems have "m = x" "x \<in> set a" by simp_all
    with Nil.prems(2) assms(2) show ?thesis by blast
  qed
next
  case (Cons x u)
  show ?case
  proof (cases a)
    case Nil
    with Cons.prems(1) have "u @ m # v = b" by simp
    then have "m \<in> set b" by auto
    with assms(2,4) show ?thesis by blast
  next
    case (Cons y ys)
    with Cons.prems have "u @ m # v = ys @ m' # b" "\<forall>c\<in>set ys. \<not> P c" "x = y" by simp_all
    with Cons.IH [of ys] Cons show ?thesis by simp
  qed
qed

text \<open>
  Claim C5.  In an accepted range every exponent marker has a digit somewhere in front
  of it and is followed by an optional sign and one or more digits up to the end of the
  range, and every decimal point has a digit directly in front of it or directly behind
  it.  So a literal whose exponent marker has no digit in front of it or no digit behind
  it, and a literal with a bare decimal point, are refused.
\<close>

theorem exponent_and_point_need_digits:
  assumes "string_contains_non_overflowing_float buf p e = Some True"
  shows "(\<forall>u m v. take (e - p) (drop p buf) = u @ m # v \<and> is_e_or_E m \<longrightarrow>
            (\<exists>d\<in>set u. is_valid_digit d) \<and>
            (\<exists>sg ds. v = sg @ ds \<and> optional_sign sg \<and> ds \<noteq> [] \<and> list_all is_valid_digit ds)) \<and>
         (\<forall>u v. take (e - p) (drop p buf) = u @ CHR ''.'' # v \<longrightarrow>
            (u \<noteq> [] \<and> is_valid_digit (last u)) \<or> (v \<noteq> [] \<and> is_valid_digit (hd v)))"
proof -
  define w where "w = take (e - p) (drop p buf)"
  from accepted_literal [OF assms]
  consider (num) ft where "well_formed ft" "w = render ft"
    | (tok) sg t where "optional_sign sg" "special_token t" "w = sg @ t"
    unfolding w_def by blast
  then have "(\<forall>u m v. w = u @ m # v \<and> is_e_or_E m \<longrightarrow>
            (\<exists>d\<in>set u. is_valid_digit d) \<and>
            (\<exists>sg ds. v = sg @ ds \<and> optional_sign sg \<and> ds \<noteq> [] \<and> list_all is_valid_digit ds)) \<and>
         (\<forall>u v. w = u @ CHR ''.'' # v \<longrightarrow>
            (u \<noteq> [] \<and> is_valid_digit (last u)) \<or> (v \<noteq> [] \<and> is_valid_digit (hd v)))"
  proof cases
    case tok
    have plain: "\<not> is_e_or_E c \<and> \<not> is_decimal c" if "c \<in> set w" for c
    proof -
      from that tok(3) have "c \<in> set sg \<or> c \<in> set t" by simp
      then show ?thesis
        using optional_sign_chars [OF tok(1)] sign_not_other special_token_letters(2,3) [OF tok(2)]
        by blast
    qed
    have no: "False" if "w = u @ m # v" "is_e_or_E m \<or> is_decimal m" for u m v
      using plain [of m] that by auto
    show ?thesis
    proof (rule conjI; intro allI impI)
      fix u m v assume "w = u @ m # v \<and> is_e_or_E m"
      then have False using no [of u m v] by blast
      then show "(\<exists>d\<in>set u. is_valid_digit d) \<and>
          (\<exists>sg ds. v = sg @ ds \<and> optional_sign sg \<and> ds \<noteq> [] \<and> list_all is_valid_digit ds)" ..
    next
      fix u v assume "w = u @ CHR ''.'' # v"
      then have False using no [of u "CHR ''.''" v] point_not_other(6) by blast
      then show "(u \<noteq> [] \<and> is_valid_digit (last u)) \<or> (v \<noteq> [] \<and> is_valid_digit (hd v))" ..
    qed
  next
    case num
    define sgn where "sgn = sign_text ft"
    define d1 where "d1 = int_digits ft"
    define d2 where "d2 = frac_digits ft"
    define ex where "ex = exponent ft"
    have wf: "optional_sign sgn" "list_all is_valid_digit d1" "list_all is_valid_digit d2"
      "has_point ft \<or> d2 = []" "d1 @ d2 \<noteq> []" "exponent_ok ex"
      using num(1) by (simp_all add: well_formed_def sgn_def d1_def d2_def ex_def)
    have w: "w = sgn @ d1 @ (if has_point ft then CHR ''.'' # d2 else []) @ exponent_text ex"
      by (simp add: num(2) render_def sgn_def d1_def d2_def ex_def)
    have c_sgn: "\<And>c. c \<in> set sgn \<Longrightarrow> \<not> is_e_or_E c \<and> \<not> is_decimal c"
      using optional_sign_chars [OF wf(1)] sign_not_other by blast
    have c_dig: "\<And>c. c \<in> set d1 \<or> c \<in> set d2 \<Longrightarrow> is_valid_digit c \<and> \<not> is_e_or_E c \<and> \<not> is_decimal c"
      using wf(2,3) digit_not_other by (auto simp add: list_all_iff)
    have c_pt: "\<not> is_e_or_E CHR ''.''" by (rule point_not_other)
    show ?thesis
    proof (rule conjI; intro allI impI)
      fix u m v assume a: "w = u @ m # v \<and> is_e_or_E m"
      define front where "front = sgn @ d1 @ (if has_point ft then CHR ''.'' # d2 else [])"
      have fr: "\<forall>c\<in>set front. \<not> is_e_or_E c"
        using c_sgn c_dig c_pt by (auto simp add: front_def)
      have wfr: "w = front @ exponent_text ex" by (simp add: w front_def)
      show "(\<exists>d\<in>set u. is_valid_digit d) \<and>
          (\<exists>sg ds. v = sg @ ds \<and> optional_sign sg \<and> ds \<noteq> [] \<and> list_all is_valid_digit ds)"
      proof (cases ex)
        case None
        then have "w = front" by (simp add: wfr exponent_text_def)
        with a fr show ?thesis by auto
      next
        case (Some x)
        then obtain m' sg ds where x: "ex = Some (m', sg, ds)" by (cases x) auto
        with wf(6) have ok: "is_e_or_E m'" "optional_sign sg" "ds \<noteq> []" "list_all is_valid_digit ds"
          by (simp_all add: exponent_ok_def)
        have tail: "\<forall>c\<in>set (sg @ ds). \<not> is_e_or_E c"
          using optional_sign_chars [OF ok(2)] sign_not_other ok(4) digit_not_other
          by (auto simp add: list_all_iff)
        have "u @ m # v = front @ m' # (sg @ ds)"
          using a by (simp add: wfr x exponent_text_def)
        from split_unique [where P = is_e_or_E, OF this _ fr tail] a
        have u: "u = front" and v: "v = sg @ ds" by simp_all
        from wf(5) obtain d where "d \<in> set d1 \<or> d \<in> set d2" by (cases d1; cases d2) auto
        with c_dig have "d \<in> set u \<and> is_valid_digit d"
          by (auto simp add: u front_def) (use wf(4) in auto)
        with v ok show ?thesis by blast
      qed
    next
      fix u v assume a: "w = u @ CHR ''.'' # v"
      have c_ex: "\<forall>c\<in>set (exponent_text ex). \<not> is_decimal c"
        using exponent_chars [OF wf(6)] sign_not_other digit_not_other marker_not_other by blast
      show "(u \<noteq> [] \<and> is_valid_digit (last u)) \<or> (v \<noteq> [] \<and> is_valid_digit (hd v))"
      proof (cases "has_point ft")
        case False
        then have "\<forall>c\<in>set w. \<not> is_decimal c"
          using c_sgn c_dig c_ex by (auto simp add: w)
        with a show ?thesis by (auto simp add: is_decimal_def)
      next
        case True
        have front: "\<forall>c\<in>set (sgn @ d1). \<not> is_decimal c" using c_sgn c_dig by auto
        have rear: "\<forall>c\<in>set (d2 @ exponent_text ex). \<not> is_decimal c" using c_dig c_ex by auto
        have "u @ CHR ''.'' # v = (sgn @ d1) @ CHR ''.'' # (d2 @ exponent_text ex)"
          using a True by (simp add: w)
        from split_unique [where P = is_decimal, OF this _ front rear]
        have u: "u = sgn @ d1" and v: "v = d2 @ exponent_text ex"
          by (simp_all add: is_decimal_def)
        show ?thesis
        proof (cases "d1 = []")
          case False
          then have "last u = last d1" "u \<noteq> []" by (simp_all add: u)
          moreover have "is_valid_digit (last d1)" using False c_dig by auto
          ultimately show ?thesis by simp
        next
          case True
          with wf(5) have ne: "d2 \<noteq> []" by simp
          then have "hd v = hd d2" "v \<noteq> []" by (simp_all add: v)
          moreover have "is_valid_digit (hd d2)" using ne c_dig by auto
          ultimately show ?thesis by simp
        qed
      qed
    qed
  qed
  then show ?thesis unfolding w_def .
qed

theorem exponent_and_point_need_digits_witness:
  "string_contains_non_overflowing_float ''1.e-5'' 0 5 = Some True \<and>
   string_contains_non_overflowing_float ''e5'' 0 2 = Some False \<and>
   string_contains_non_overflowing_float ''.e5'' 0 3 = Some False \<and>
   string_contains_non_overflowing_float ''1e'' 0 2 = Some False \<and>
   string_contains_non_overflowing_float ''1e+'' 0 3 = Some False \<and>
   string_contains_non_overflowing_float ''-.'' 0 2 = Some False \<and>
   (\<exists>d\<in>set ''1.''. is_valid_digit d)"
proof -
  have a: "string_contains_non_overflowing_float ''1.e-5'' 0 5 = Some True" by code_simp
  have b: "string_contains_non_overflowing_float ''e5'' 0 2 = Some False"
    "string_contains_non_overflowing_float ''.e5'' 0 3 = Some False"
    "string_contains_non_overflowing_float ''1e'' 0 2 = Some False"
    "string_contains_non_overflowing_float ''1e+'' 0 3 = Some False"
    "string_contains_non_overflowing_float ''-.'' 0 2 = Some False"
    by code_simp+
  have "take (5 - 0) (drop 0 ''1.e-5'') = ''1.'' @ CHR ''e'' # ''-5'' \<and> is_e_or_E CHR ''e''"
    by (simp add: is_e_or_E_def)
  with exponent_and_point_need_digits [OF a] have "\<exists>d\<in>set ''1.''. is_valid_digit d"
    by blast
  with a b show ?thesis by simp
qed

end
